theory Spec2Isabelle
  imports Complex_Main "HOL-Library.Word" "HOL-Library.Sublist"
begin

section \<open>JavaScript strings\<close>

text \<open>
  A JavaScript string is a sequence of UTF-16 code units and \<open>length\<close> counts code
  units, so a string is modelled as a list of 16-bit words. ASCII literals of the source
  are written \<open>lit ''...''\<close>; the few non-ASCII characters of the source are written by
  their code units.
\<close>

type_synonym jschar = "16 word"

type_synonym jsstring = "jschar list"

definition lit :: "string \<Rightarrow> jsstring" where
  "lit s = map of_char s"

definition space :: jschar where
  "space = 0x0020"

text \<open>
  The characters removed by \<open>String.prototype.trim\<close> and matched by \<open>\s\<close>:
  the WhiteSpace and LineTerminator code points of ECMAScript.
\<close>

definition isWhiteSpace :: "jschar \<Rightarrow> bool" where
  "isWhiteSpace c \<longleftrightarrow>
     c = 0x0009 \<or> c = 0x000A \<or> c = 0x000B \<or> c = 0x000C \<or> c = 0x000D \<or> c = 0x0020 \<or>
     c = 0x00A0 \<or> c = 0x1680 \<or> (0x2000 \<le> c \<and> c \<le> 0x200A) \<or> c = 0x2028 \<or>
     c = 0x2029 \<or> c = 0x202F \<or> c = 0x205F \<or> c = 0x3000 \<or> c = 0xFEFF"

definition trim :: "jsstring \<Rightarrow> jsstring" where
  "trim s = rev (dropWhile isWhiteSpace (rev (dropWhile isWhiteSpace s)))"

text \<open>
  \<open>s.split(/[...]+/)\<close> for a character class: the pieces between the maximal runs of
  separator characters. A run at the start or at the end of the string leaves an empty
  piece there, and the empty string gives one empty piece.
\<close>

function splitRuns :: "(jschar \<Rightarrow> bool) \<Rightarrow> jsstring \<Rightarrow> jsstring list" where
  "splitRuns sep s =
     (let piece = takeWhile (\<lambda>c. \<not> sep c) s;
          rest = dropWhile (\<lambda>c. \<not> sep c) s
      in if rest = [] then [piece] else piece # splitRuns sep (dropWhile sep rest))"
  by pat_completeness auto
termination
proof (relation "measure (\<lambda>(sep, s). length s)")
  show "wf (measure (\<lambda>(sep, s). length s))"
    by simp
next
  fix sep :: "jschar \<Rightarrow> bool" and s piece rest :: jsstring
  assume r: "rest = dropWhile (\<lambda>c. \<not> sep c) s" and ne: "rest \<noteq> []"
  from ne obtain c cs where rc: "rest = c # cs"
    by (cases rest) auto
  have "length (dropWhile sep rest) \<le> length rest"
    by (rule length_dropWhile_le)
  moreover have "sep c"
    using r rc dropWhile_eq_Cons_conv [of "\<lambda>c. \<not> sep c" s c cs] by simp
  then have "dropWhile sep rest = dropWhile sep cs"
    using rc by simp
  then have "length (dropWhile sep rest) < length rest"
    using rc length_dropWhile_le [of sep cs] by simp
  moreover have "length rest \<le> length s"
    using r by (simp add: length_dropWhile_le)
  ultimately show "((sep, dropWhile sep rest), (sep, s)) \<in> measure (\<lambda>(sep, s). length s)"
    by simp
qed

declare splitRuns.simps [simp del]

text \<open>
  \<open>s.split(' ')\<close> with a one-character separator: every occurrence separates, so two
  adjacent separators enclose an empty piece.
\<close>

fun splitOn :: "jschar \<Rightarrow> jsstring \<Rightarrow> jsstring list" where
  "splitOn sep [] = [[]]"
| "splitOn sep (c # cs) =
     (if c = sep then [] # splitOn sep cs
      else (case splitOn sep cs of
              [] \<Rightarrow> [[c]]
            | w # ws \<Rightarrow> (c # w) # ws))"

text \<open>\<open>xs.join(sep)\<close>.\<close>

fun join :: "jsstring \<Rightarrow> jsstring list \<Rightarrow> jsstring" where
  "join sep [] = []"
| "join sep [w] = w"
| "join sep (w # ws) = w @ sep @ join sep ws"

text \<open>
  \<open>xs.slice(-n)\<close> for a natural number \<open>n\<close>: the last \<open>n\<close> elements, all of them when
  the list has fewer; \<open>-0\<close> is \<open>0\<close>, so \<open>n = 0\<close> gives the whole list.
\<close>

definition sliceLast :: "nat \<Rightarrow> 'a list \<Rightarrow> 'a list" where
  "sliceLast n xs = (if n = 0 then xs else drop (length xs - n) xs)"

section \<open>Chunker\<close>

definition isSentenceEnd :: "jschar \<Rightarrow> bool" where
  "isSentenceEnd c \<longleftrightarrow> c = of_char CHR ''.'' \<or> c = of_char CHR ''!'' \<or> c = of_char CHR ''?''"

text \<open>\<open>text.split(/[.!?]+/).filter(s => s.trim().length > 0)\<close>\<close>

definition sentencesOf :: "jsstring \<Rightarrow> jsstring list" where
  "sentencesOf text = filter (\<lambda>s. length (trim s) > 0) (splitRuns isSentenceEnd text)"

text \<open>The words carried over at a split: \<open>currentChunk.split(' ').slice(-Math.floor(overlap / 5))\<close>.\<close>

definition overlapWords :: "nat \<Rightarrow> jsstring \<Rightarrow> jsstring list" where
  "overlapWords overlap currentChunk = sliceLast (overlap div 5) (splitOn space currentChunk)"

text \<open>The \<open>for\<close> loop of \<open>chunkText\<close> over the sentences; its state is \<open>(chunks, currentChunk)\<close>.\<close>

fun chunkLoop :: "nat \<Rightarrow> nat \<Rightarrow> jsstring list \<Rightarrow> jsstring list \<times> jsstring \<Rightarrow> jsstring list \<times> jsstring" where
  "chunkLoop chunkSize overlap [] (chunks, currentChunk) = (chunks, currentChunk)"
| "chunkLoop chunkSize overlap (sentence # rest) (chunks, currentChunk) =
     (let trimmedSentence = trim sentence in
      if length (currentChunk @ trimmedSentence) > chunkSize \<and> length currentChunk > 0 then
        chunkLoop chunkSize overlap rest
          (chunks @ [trim currentChunk],
           join [space] (overlapWords overlap currentChunk) @ [space] @ trimmedSentence)
      else
        chunkLoop chunkSize overlap rest
          (chunks,
           currentChunk @ (if currentChunk \<noteq> [] then lit ''. '' else []) @ trimmedSentence))"

definition chunkText :: "jsstring \<Rightarrow> nat \<Rightarrow> nat \<Rightarrow> jsstring list" where
  "chunkText text chunkSize overlap =
     (let (chunks, currentChunk) = chunkLoop chunkSize overlap (sentencesOf text) ([], [])
      in if length (trim currentChunk) > 0 then chunks @ [trim currentChunk] else chunks)"

section \<open>JavaScript numbers\<close>

text \<open>
  A JavaScript number is an IEEE 754 double. The model keeps the special values and the
  rules that produce them (\<open>0 / 0\<close>, \<open>Infinity - Infinity\<close> and \<open>0 * Infinity\<close> are
  \<open>NaN\<close>, a non-zero number divided by zero is infinite, every comparison with \<open>NaN\<close> is
  false); a finite value is an exact real number, so rounding, overflow, underflow and the
  sign of zero are not modelled.
\<close>

datatype jsnum = Fin real | PosInf | NegInf | NaN

fun jsneg :: "jsnum \<Rightarrow> jsnum" where
  "jsneg (Fin x) = Fin (- x)"
| "jsneg PosInf = NegInf"
| "jsneg NegInf = PosInf"
| "jsneg NaN = NaN"

fun jsadd :: "jsnum \<Rightarrow> jsnum \<Rightarrow> jsnum" where
  "jsadd NaN y = NaN"
| "jsadd x NaN = NaN"
| "jsadd (Fin x) (Fin y) = Fin (x + y)"
| "jsadd PosInf NegInf = NaN"
| "jsadd NegInf PosInf = NaN"
| "jsadd PosInf y = PosInf"
| "jsadd x PosInf = PosInf"
| "jsadd NegInf y = NegInf"
| "jsadd x NegInf = NegInf"

definition jssub :: "jsnum \<Rightarrow> jsnum \<Rightarrow> jsnum" where
  "jssub x y = jsadd x (jsneg y)"

fun jsmul :: "jsnum \<Rightarrow> jsnum \<Rightarrow> jsnum" where
  "jsmul NaN y = NaN"
| "jsmul x NaN = NaN"
| "jsmul (Fin x) (Fin y) = Fin (x * y)"
| "jsmul (Fin x) PosInf = (if x = 0 then NaN else if x > 0 then PosInf else NegInf)"
| "jsmul (Fin x) NegInf = (if x = 0 then NaN else if x > 0 then NegInf else PosInf)"
| "jsmul PosInf (Fin y) = (if y = 0 then NaN else if y > 0 then PosInf else NegInf)"
| "jsmul NegInf (Fin y) = (if y = 0 then NaN else if y > 0 then NegInf else PosInf)"
| "jsmul PosInf PosInf = PosInf"
| "jsmul PosInf NegInf = NegInf"
| "jsmul NegInf PosInf = NegInf"
| "jsmul NegInf NegInf = PosInf"

fun jsdiv :: "jsnum \<Rightarrow> jsnum \<Rightarrow> jsnum" where
  "jsdiv NaN y = NaN"
| "jsdiv x NaN = NaN"
| "jsdiv (Fin x) (Fin y) =
     (if y \<noteq> 0 then Fin (x / y)
      else if x = 0 then NaN else if x > 0 then PosInf else NegInf)"
| "jsdiv (Fin x) PosInf = Fin 0"
| "jsdiv (Fin x) NegInf = Fin 0"
| "jsdiv PosInf (Fin y) = (if y \<ge> 0 then PosInf else NegInf)"
| "jsdiv NegInf (Fin y) = (if y \<ge> 0 then NegInf else PosInf)"
| "jsdiv PosInf y = NaN"
| "jsdiv NegInf y = NaN"

fun jssqrt :: "jsnum \<Rightarrow> jsnum" where
  "jssqrt (Fin x) = (if x < 0 then NaN else Fin (sqrt x))"
| "jssqrt PosInf = PosInf"
| "jssqrt NegInf = NaN"
| "jssqrt NaN = NaN"

text \<open>\<open>x > y\<close> and \<open>x >= y\<close> on numbers.\<close>

fun jsgt :: "jsnum \<Rightarrow> jsnum \<Rightarrow> bool" where
  "jsgt NaN y = False"
| "jsgt x NaN = False"
| "jsgt (Fin x) (Fin y) = (x > y)"
| "jsgt x PosInf = False"
| "jsgt PosInf y = True"
| "jsgt NegInf y = False"
| "jsgt x NegInf = True"

fun jsge :: "jsnum \<Rightarrow> jsnum \<Rightarrow> bool" where
  "jsge NaN y = False"
| "jsge x NaN = False"
| "jsge (Fin x) (Fin y) = (x \<ge> y)"
| "jsge PosInf y = True"
| "jsge x NegInf = True"
| "jsge x PosInf = False"
| "jsge NegInf y = False"

text \<open>
  Reading \<open>xs[i]\<close> in arithmetic: past the end the value is \<open>undefined\<close>, which
  arithmetic turns into \<open>NaN\<close>.
\<close>

definition numAt :: "jsnum list \<Rightarrow> nat \<Rightarrow> jsnum" where
  "numAt xs i = (if i < length xs then xs ! i else NaN)"

text \<open>
  \<open>Array.prototype.sort(comparefn)\<close>: a stable sort in which an element moves behind
  another one only when \<open>comparefn\<close> places it after that one (a result greater than
  zero; \<open>NaN\<close> counts as zero). The language fixes the result only for a consistent
  comparison function. Where \<open>comparefn\<close> returns \<open>NaN\<close> for some pair the order is
  left to the algorithm of the engine, and the insertion order of the model is then one
  such algorithm.
\<close>

fun insertBy :: "('a \<Rightarrow> 'a \<Rightarrow> jsnum) \<Rightarrow> 'a \<Rightarrow> 'a list \<Rightarrow> 'a list" where
  "insertBy comparefn x [] = [x]"
| "insertBy comparefn x (y # ys) =
     (if jsgt (comparefn x y) (Fin 0) then y # insertBy comparefn x ys else x # y # ys)"

definition jsSort :: "('a \<Rightarrow> 'a \<Rightarrow> jsnum) \<Rightarrow> 'a list \<Rightarrow> 'a list" where
  "jsSort comparefn xs = foldr (insertBy comparefn) xs []"

text \<open>The decimal digits of a natural number, as \<open>`${n}`\<close> prints it.\<close>

function showNat :: "nat \<Rightarrow> jsstring" where
  "showNat n =
     (if n < 10 then [of_char CHR ''0'' + of_nat n]
      else showNat (n div 10) @ [of_char CHR ''0'' + of_nat (n mod 10)])"
  by pat_completeness auto
termination
  by (relation "measure (\<lambda>n. n)") auto

declare showNat.simps [simp del]

section \<open>Cosine similarity\<close>

text \<open>The \<open>for\<close> loop of \<open>cosineSimilarity\<close>; its state is \<open>(dotProduct, normA, normB)\<close>.\<close>

function cosineLoop :: "jsnum list \<Rightarrow> jsnum list \<Rightarrow> nat \<Rightarrow> jsnum \<times> jsnum \<times> jsnum \<Rightarrow> jsnum \<times> jsnum \<times> jsnum" where
  "cosineLoop a b i (dotProduct, normA, normB) =
     (if i < length a then
        cosineLoop a b (i + 1)
          (jsadd dotProduct (jsmul (numAt a i) (numAt b i)),
           jsadd normA (jsmul (numAt a i) (numAt a i)),
           jsadd normB (jsmul (numAt b i) (numAt b i)))
      else (dotProduct, normA, normB))"
  by pat_completeness auto
termination
  by (relation "measure (\<lambda>(a, b, i, acc). length a - i)") auto

declare cosineLoop.simps [simp del]

definition cosineSimilarity :: "jsnum list \<Rightarrow> jsnum list \<Rightarrow> jsnum" where
  "cosineSimilarity a b =
     (if length a \<noteq> length b then Fin 0
      else (let (dotProduct, normA, normB) = cosineLoop a b 0 (Fin 0, Fin 0, Fin 0)
            in jsdiv dotProduct (jsmul (jssqrt normA) (jssqrt normB))))"

text \<open>
  In the words of the claim about \<open>cosineSimilarity\<close>: the dot product, a sum over the
  paired entries added from the left starting at zero, and the Euclidean norm.
\<close>

definition dot :: "jsnum list \<Rightarrow> jsnum list \<Rightarrow> jsnum" where
  "dot a b = foldl jsadd (Fin 0) (map (\<lambda>(x, y). jsmul x y) (zip a b))"

definition norm2 :: "jsnum list \<Rightarrow> jsnum" where
  "norm2 a = jssqrt (dot a a)"

section \<open>Exceptions, the network and the runtime\<close>

text \<open>
  A thrown value: an \<open>Error\<close> with its message, or a value that is not an \<open>Error\<close>.
\<close>

datatype exn = Error jsstring | NonError

text \<open>
  What \<open>fetch\<close> and the reading of the JSON body give: a rejection, a response whose
  \<open>ok\<close> is false (with its \<open>statusText\<close>), or the decoded body.
\<close>

datatype 'a fetched = Rejected exn | NotOk jsstring | HttpOk 'a

text \<open>
  What the code takes from outside the repository. \<open>toLowerCase\<close> is
  \<open>String.prototype.toLowerCase\<close> and \<open>canonicalize\<close> the case folding of a
  case-insensitive regular expression (both are Unicode tables of the runtime);
  \<open>tagsEndpoint\<close> is the answer of \<open>GET /api/tags\<close>, as the names of the models
  listed; \<open>embeddingsEndpoint n text\<close> is the answer to the \<open>n\<close>-th embedding request of
  an operation, sent with the prompt \<open>text\<close>; \<open>dateNow\<close> is \<open>Date.now()\<close>,
  \<open>mathRandom36\<close> is \<open>Math.random().toString(36)\<close> and \<open>newDate\<close> the time value of
  \<open>new Date()\<close>.
\<close>

record Env =
  toLowerCase :: "jsstring \<Rightarrow> jsstring"
  canonicalize :: "jschar \<Rightarrow> jschar"
  tagsEndpoint :: "jsstring list fetched"
  embeddingsEndpoint :: "nat \<Rightarrow> jsstring \<Rightarrow> jsnum list fetched"
  dateNow :: nat
  mathRandom36 :: jsstring
  newDate :: nat

section \<open>Documents and the document store\<close>

text \<open>
  The \<open>metadata\<close> object of a chunk: the two fields of the interface, and the fields
  the code adds through \<open>as any\<close>.
\<close>

record Metadata =
  meta_page :: "jsnum option"
  meta_section :: "jsstring option"
  meta_chunkIndex :: "nat option"
  meta_similarity :: "jsnum option"
  meta_documentName :: "jsstring option"

record DocumentChunk =
  chunk_id :: jsstring
  chunk_documentId :: jsstring
  chunk_content :: jsstring
  chunk_embedding :: "jsnum list option"
  chunk_metadata :: Metadata

text \<open>
  \<open>uploadedAt\<close> holds an ISO 8601 string that the code only writes with
  \<open>toISOString\<close> and only reads through \<open>new Date(...).getTime()\<close>; the model keeps
  that time value.
\<close>

record Document =
  doc_id :: jsstring
  doc_name :: jsstring
  doc_type :: jsstring
  doc_size :: nat
  doc_uploadedAt :: jsnum
  doc_content :: jsstring
  doc_chunks :: "DocumentChunk list"

text \<open>
  The state of the module: the \<open>documents\<close> store, as its entries in the order
  \<open>iterate\<close> visits them, and the cached answer of \<open>checkEmbeddingModel\<close>. The store is
  taken to be reliable: its reads and writes succeed.
\<close>

record State =
  documentsStore :: "(jsstring \<times> Document) list"
  embeddingModelAvailable :: "bool option"

text \<open>\<open>documentsStore.setItem(key, value)\<close>\<close>

fun setItem :: "jsstring \<Rightarrow> Document \<Rightarrow> (jsstring \<times> Document) list \<Rightarrow> (jsstring \<times> Document) list" where
  "setItem key val [] = [(key, val)]"
| "setItem key val ((k, v) # rest) =
     (if k = key then (key, val) # rest else (k, v) # setItem key val rest)"

definition getItem :: "jsstring \<Rightarrow> (jsstring \<times> Document) list \<Rightarrow> Document option" where
  "getItem key entries = map_of entries key"

definition getAllDocuments :: "State \<Rightarrow> Document list" where
  "getAllDocuments s =
     jsSort (\<lambda>a b. jssub (doc_uploadedAt b) (doc_uploadedAt a)) (map snd (documentsStore s))"

definition EMBEDDING_MODEL :: jsstring where
  "EMBEDDING_MODEL = lit ''nomic-embed-text''"

section \<open>Embedding client\<close>

definition checkEmbeddingModel :: "Env \<Rightarrow> State \<Rightarrow> bool \<times> State" where
  "checkEmbeddingModel env s =
     (case embeddingModelAvailable s of
        Some available \<Rightarrow> (available, s)
      | None \<Rightarrow>
          (case tagsEndpoint env of
             Rejected e \<Rightarrow> (False, s\<lparr>embeddingModelAvailable := Some False\<rparr>)
           | NotOk statusText \<Rightarrow> (False, s\<lparr>embeddingModelAvailable := Some False\<rparr>)
           | HttpOk models \<Rightarrow>
               (let available =
                      list_ex (\<lambda>m. m = EMBEDDING_MODEL \<or> prefix (EMBEDDING_MODEL @ lit '':'') m) models
                in (available, s\<lparr>embeddingModelAvailable := Some available\<rparr>))))"

definition generateEmbedding :: "(jsstring \<Rightarrow> jsnum list fetched) \<Rightarrow> jsstring \<Rightarrow> exn + jsnum list" where
  "generateEmbedding endpoint text =
     (case endpoint text of
        Rejected e \<Rightarrow> Inl e
      | NotOk statusText \<Rightarrow> Inl (Error (lit ''Embedding failed: '' @ statusText))
      | HttpOk embedding \<Rightarrow> Inr embedding)"

section \<open>Similarity ranker\<close>

text \<open>An entry of \<open>scoredChunks\<close>.\<close>

record Scored =
  sc_chunk :: DocumentChunk
  sc_score :: jsnum
  sc_docName :: jsstring

text \<open>
  \<open>synonyms[word]\<close> on the object literal: an own key gives its array; a name that
  \<open>Object.prototype\<close> defines gives an inherited function or object, which is truthy and
  has no \<open>forEach\<close>; any other word gives \<open>undefined\<close>.
\<close>

datatype lookup = Own "jsstring list" | Inherited | Undefined

definition objectPrototypeNames :: "jsstring list" where
  "objectPrototypeNames =
     [lit ''constructor'', lit ''__defineGetter__'', lit ''__defineSetter__'',
      lit ''hasOwnProperty'', lit ''__lookupGetter__'', lit ''__lookupSetter__'',
      lit ''isPrototypeOf'', lit ''propertyIsEnumerable'', lit ''toString'',
      lit ''valueOf'', lit ''__proto__'', lit ''toLocaleString'']"

definition synonymsTable :: "(jsstring \<times> jsstring list) list" where
  "synonymsTable =
     [(lit ''mac'', [lit ''apple'', lit ''macbook'', lit ''imac'', lit ''macintosh'', lit ''macos'']),
      (lit ''apple'', [lit ''mac'', lit ''macbook'', lit ''imac'', lit ''iphone'', lit ''ipad'']),
      (lit ''macbook'', [lit ''mac'', lit ''apple'', lit ''laptop'']),
      (lit ''dell'', [lit ''latitude'', lit ''optiplex'', lit ''precision'', lit ''xps'']),
      (lit ''laptop'', [lit ''notebook'', lit ''portable'', lit ''macbook'', lit ''latitude'']),
      (lit ''computer'', [lit ''pc'', lit ''machine'', lit ''workstation'', lit ''desktop'', lit ''laptop'']),
      (lit ''specs'', [lit ''specifications'', lit ''spec'', lit ''configuration'', lit ''config'', lit ''requirements'']),
      (lit ''specifications'', [lit ''specs'', lit ''spec'', lit ''configuration'', lit ''config'']),
      (lit ''price'', [lit ''cost'', lit ''pricing'', lit ''amount'', lit ''fee'']),
      (lit ''cost'', [lit ''price'', lit ''pricing'', lit ''amount'', lit ''expense''])]"

definition synonyms :: "jsstring \<Rightarrow> lookup" where
  "synonyms word =
     (case map_of synonymsTable word of
        Some syns \<Rightarrow> Own syns
      | None \<Rightarrow> if word \<in> set objectPrototypeNames then Inherited else Undefined)"

text \<open>\<open>expanded.add(x)\<close> on a \<open>Set\<close>, kept as its elements in insertion order.\<close>

definition setAdd :: "jsstring \<Rightarrow> jsstring list \<Rightarrow> jsstring list" where
  "setAdd x expanded = (if x \<in> set expanded then expanded else expanded @ [x])"

text \<open>
  The \<open>words.forEach\<close> of \<open>expandQueryTerms\<close>. Calling the missing \<open>forEach\<close> of an
  inherited property throws a \<open>TypeError\<close>.
\<close>

fun addSynonyms :: "jsstring list \<Rightarrow> jsstring list \<Rightarrow> exn + jsstring list" where
  "addSynonyms [] expanded = Inr expanded"
| "addSynonyms (word # rest) expanded =
     (case synonyms word of
        Undefined \<Rightarrow> addSynonyms rest expanded
      | Own syns \<Rightarrow> addSynonyms rest (fold setAdd syns expanded)
      | Inherited \<Rightarrow> Inl (Error (lit ''synonyms[word].forEach is not a function'')))"

definition expandQueryTerms :: "Env \<Rightarrow> jsstring \<Rightarrow> exn + jsstring list" where
  "expandQueryTerms env query =
     (let words = filter (\<lambda>w. length w > 2) (splitRuns isWhiteSpace (toLowerCase env query));
          expanded = fold setAdd words []
      in addSynonyms words expanded)"

text \<open>
  \<open>(text.match(new RegExp(escapeRegex(term), 'gi')) || []).length\<close>: \<open>escapeRegex\<close>
  puts a backslash before every character that is special in a pattern, so the
  expression matches the term literally, up to the case folding of the \<open>i\<close> flag; with
  the \<open>g\<close> flag \<open>match\<close> returns the matches found from left to right, each search
  starting where the previous match ended (one position further after an empty match).
\<close>

function countMatches :: "(jschar \<Rightarrow> jschar) \<Rightarrow> jsstring \<Rightarrow> jsstring \<Rightarrow> nat" where
  "countMatches fold_case term text =
     (if term = [] then length text + 1
      else if length text < length term then 0
      else if map fold_case (take (length term) text) = map fold_case term
        then 1 + countMatches fold_case term (drop (length term) text)
      else countMatches fold_case term (tl text))"
  by pat_completeness auto
termination
proof (relation "measure (\<lambda>(fold_case, term, text). length text)")
  show "wf (measure (\<lambda>(fold_case, term, text). length text))"
    by simp
next
  fix fold_case :: "jschar \<Rightarrow> jschar" and t u :: jsstring
  assume "t \<noteq> []" and "\<not> length u < length t"
  then have "0 < length t" and "length t \<le> length u"
    by simp_all
  then have "length u - length t < length u"
    by arith
  then show "((fold_case, t, drop (length t) u), (fold_case, t, u))
      \<in> measure (\<lambda>(fold_case, term, text). length text)"
    by simp
next
  fix fold_case :: "jschar \<Rightarrow> jschar" and t u :: jsstring
  assume "t \<noteq> []" and "\<not> length u < length t"
  then have "0 < length u"
    by (cases t) auto
  then show "((fold_case, t, tl u), (fold_case, t, u))
      \<in> measure (\<lambda>(fold_case, term, text). length text)"
    by simp
qed

declare countMatches.simps [simp del]

text \<open>
  The \<open>expandedTerms.forEach\<close> that adds up \<open>score\<close> for one chunk; \<open>loweredText\<close>
  is the local variable that the source calls \<open>chunkText\<close>.
\<close>

fun keywordScore :: "Env \<Rightarrow> jsstring list \<Rightarrow> jsstring \<Rightarrow> nat \<Rightarrow> nat" where
  "keywordScore env [] loweredText score = score"
| "keywordScore env (term # rest) loweredText score =
     keywordScore env rest loweredText (score + countMatches (canonicalize env) term loweredText)"

text \<open>The two nested \<open>for\<close> loops of the vector search, pushing onto \<open>scoredChunks\<close>.\<close>

fun vectorChunks :: "jsnum list \<Rightarrow> jsstring \<Rightarrow> DocumentChunk list \<Rightarrow> Scored list \<Rightarrow> Scored list" where
  "vectorChunks queryEmbedding docName [] scoredChunks = scoredChunks"
| "vectorChunks queryEmbedding docName (chunk # rest) scoredChunks =
     (case chunk_embedding chunk of
        Some embedding \<Rightarrow>
          vectorChunks queryEmbedding docName rest
            (scoredChunks @
             [\<lparr>sc_chunk = chunk, sc_score = cosineSimilarity queryEmbedding embedding,
               sc_docName = docName\<rparr>])
      | None \<Rightarrow> vectorChunks queryEmbedding docName rest scoredChunks)"

fun vectorDocuments :: "jsnum list \<Rightarrow> Document list \<Rightarrow> Scored list \<Rightarrow> Scored list" where
  "vectorDocuments queryEmbedding [] scoredChunks = scoredChunks"
| "vectorDocuments queryEmbedding (doc # rest) scoredChunks =
     vectorDocuments queryEmbedding rest
       (vectorChunks queryEmbedding (doc_name doc) (doc_chunks doc) scoredChunks)"

text \<open>The two nested \<open>for\<close> loops of the keyword search.\<close>

fun keywordChunks :: "Env \<Rightarrow> jsstring list \<Rightarrow> jsstring \<Rightarrow> DocumentChunk list \<Rightarrow> Scored list \<Rightarrow> Scored list" where
  "keywordChunks env expandedTerms docName [] scoredChunks = scoredChunks"
| "keywordChunks env expandedTerms docName (chunk # rest) scoredChunks =
     (let loweredText = toLowerCase env (chunk_content chunk);
          score = keywordScore env expandedTerms loweredText 0
      in if score > 0 then
           keywordChunks env expandedTerms docName rest
             (scoredChunks @
              [\<lparr>sc_chunk = chunk, sc_score = Fin (real score), sc_docName = docName\<rparr>])
         else keywordChunks env expandedTerms docName rest scoredChunks)"

fun keywordDocuments :: "Env \<Rightarrow> jsstring list \<Rightarrow> Document list \<Rightarrow> Scored list \<Rightarrow> Scored list" where
  "keywordDocuments env expandedTerms [] scoredChunks = scoredChunks"
| "keywordDocuments env expandedTerms (doc # rest) scoredChunks =
     keywordDocuments env expandedTerms rest
       (keywordChunks env expandedTerms (doc_name doc) (doc_chunks doc) scoredChunks)"

text \<open>The comparison function of both sorts: \<open>(a, b) => b.score - a.score\<close>.\<close>

definition byScore :: "Scored \<Rightarrow> Scored \<Rightarrow> jsnum" where
  "byScore a b = jssub (sc_score b) (sc_score a)"

text \<open>The chunk returned for an entry: a copy with \<open>similarity\<close> and \<open>documentName\<close> added.\<close>

definition withSimilarity :: "jsnum \<Rightarrow> Scored \<Rightarrow> DocumentChunk" where
  "withSimilarity similarity item =
     (sc_chunk item)\<lparr>chunk_metadata :=
        (chunk_metadata (sc_chunk item))\<lparr>meta_similarity := Some similarity,
                                          meta_documentName := Some (sc_docName item)\<rparr>\<rparr>"

definition hasEmbeddings :: "Document list \<Rightarrow> bool" where
  "hasEmbeddings documents =
     list_ex (\<lambda>doc. list_ex (\<lambda>c. chunk_embedding c \<noteq> None) (doc_chunks doc)) documents"

text \<open>The \<open>try\<close> block of \<open>searchDocuments\<close>.\<close>

definition searchDocumentsBody :: "Env \<Rightarrow> jsstring \<Rightarrow> nat \<Rightarrow> State \<Rightarrow> exn + DocumentChunk list" where
  "searchDocumentsBody env query topK s =
     (let documents = getAllDocuments s in
      if hasEmbeddings documents then
        (case generateEmbedding (embeddingsEndpoint env 0) query of
           Inl e \<Rightarrow> Inl e
         | Inr queryEmbedding \<Rightarrow>
             (let scoredChunks = jsSort byScore (vectorDocuments queryEmbedding documents [])
              in Inr (map (\<lambda>item. withSimilarity (sc_score item) item) (take topK scoredChunks))))
      else
        (case expandQueryTerms env query of
           Inl e \<Rightarrow> Inl e
         | Inr expandedTerms \<Rightarrow>
             (let scoredChunks = jsSort byScore (keywordDocuments env expandedTerms documents [])
              in Inr (map (\<lambda>item. withSimilarity (jsdiv (sc_score item) (Fin 10)) item)
                        (take topK scoredChunks)))))"

text \<open>
  \<open>searchDocuments\<close>: the \<open>catch\<close> turns every exception of the block into the empty
  list. The function reads the state and does not write it.
\<close>

definition searchDocuments :: "Env \<Rightarrow> jsstring \<Rightarrow> nat \<Rightarrow> State \<Rightarrow> (exn + DocumentChunk list) \<times> State" where
  "searchDocuments env query topK s =
     (case searchDocumentsBody env query topK s of
        Inl e \<Rightarrow> (Inr [], s)
      | Inr found \<Rightarrow> (Inr found, s))"

section \<open>Context assembler\<close>

definition quote :: jschar where
  "quote = 0x0022"

text \<open>The rule of a banner: the box-drawing character U+2550, 60 times.\<close>

definition doubleBar :: jsstring where
  "doubleBar = replicate 60 0x2550"

definition systemPrompt :: jsstring where
  "systemPrompt =
     lit ''You are a document assistant. You MUST follow these rules EXACTLY:\<newline>\<newline>'' @
     lit ''STRICT RULES:\<newline>'' @
     lit ''1. ONLY use information that appears EXACTLY in the document below\<newline>'' @
     lit ''2. When answering, COPY the exact text from the document - do not paraphrase\<newline>'' @
     lit ''3. If you cannot find the EXACT answer in the document, say '' @ [quote] @
     lit ''I could not find this specific information in the document'' @ [quote] @ lit ''\<newline>'' @
     lit ''4. NEVER make up or infer information that is not explicitly written\<newline>'' @
     lit ''5. NEVER mix information from different sections\<newline>'' @
     lit ''6. Format your answer by quoting the relevant text directly\<newline>\<newline>'' @
     lit ''The most relevant sections are shown first below.''"

text \<open>The banner of PART 1; the emoji U+1F3AF is two code units.\<close>

definition relevantHeader :: jsstring where
  "relevantHeader =
     lit ''\<newline>'' @ doubleBar @ lit ''\<newline>'' @
     [0xD83C, 0xDFAF] @ lit '' MOST RELEVANT SECTIONS FOR YOUR QUESTION:\<newline>'' @
     doubleBar @ lit ''\<newline>\<newline>''"

text \<open>The banner of PART 2; the emoji U+1F4C4 is two code units.\<close>

definition fullHeader :: jsstring where
  "fullHeader =
     lit ''\<newline>'' @ doubleBar @ lit ''\<newline>'' @
     [0xD83D, 0xDCC4] @ lit '' FULL DOCUMENT CONTENT (for additional context):\<newline>'' @
     doubleBar @ lit ''\<newline>\<newline>''"

text \<open>The \<open>relevantChunks.forEach((chunk, index) => ...)\<close> of PART 1.\<close>

fun relevantLoop :: "DocumentChunk list \<Rightarrow> nat \<Rightarrow> jsstring \<Rightarrow> jsstring" where
  "relevantLoop [] index context = context"
| "relevantLoop (chunk # rest) index context =
     (let docName =
            (case meta_documentName (chunk_metadata chunk) of
               Some n \<Rightarrow> if n \<noteq> [] then n else lit ''Document''
             | None \<Rightarrow> lit ''Document'')
      in relevantLoop rest (index + 1)
           (context @
            lit ''[Section '' @ showNat (index + 1) @ lit ''] From '' @ [quote] @ docName @ [quote] @
            lit '':\<newline>'' @
            replicate 40 (of_char CHR ''-'') @ lit ''\<newline>'' @
            chunk_content chunk @ lit ''\<newline>\<newline>''))"

definition truncationNotice :: jsstring where
  "truncationNotice = lit ''\<newline>[Additional document content truncated due to size]\<newline>''"

definition truncatedMarker :: jsstring where
  "truncatedMarker = lit ''\<newline>[... truncated ...]\<newline>''"

definition maxTotalLength :: int where
  "maxTotalLength = 300000"

text \<open>The file banner of a document; its rule is the character U+2500, 40 times.\<close>

definition fileHeader :: "Document \<Rightarrow> jsstring" where
  "fileHeader doc =
     lit ''\<newline>FILE: '' @ doc_name doc @ lit ''\<newline>'' @ replicate 40 0x2500 @ lit ''\<newline>''"

text \<open>
  The \<open>for (const doc of allDocs)\<close> loop of PART 2; its state is
  \<open>(context, totalLength)\<close> and the \<open>break\<close> ends it.
\<close>

fun fullDocLoop :: "Document list \<Rightarrow> jsstring \<times> int \<Rightarrow> jsstring \<times> int" where
  "fullDocLoop [] (context, totalLength) = (context, totalLength)"
| "fullDocLoop (doc # rest) (context, totalLength) =
     (let remainingSpace = maxTotalLength - totalLength in
      if remainingSpace < 1000 then (context @ truncationNotice, totalLength)
      else if int (length (doc_content doc)) \<le> remainingSpace then
        fullDocLoop rest
          (context @ fileHeader doc @ doc_content doc @ lit ''\<newline>'',
           totalLength + int (length (doc_content doc)))
      else
        fullDocLoop rest
          (context @ fileHeader doc @ take (nat (remainingSpace - 100)) (doc_content doc) @
           truncatedMarker,
           maxTotalLength))"

text \<open>The variable \<open>context\<close> after PART 1.\<close>

definition relevantSections :: "DocumentChunk list \<Rightarrow> jsstring" where
  "relevantSections relevantChunks =
     (if length relevantChunks > 0 then relevantLoop relevantChunks 0 relevantHeader else [])"

text \<open>The variable \<open>context\<close> when the loop of PART 2 has ended.\<close>

definition accumulatedContext :: "DocumentChunk list \<Rightarrow> Document list \<Rightarrow> jsstring" where
  "accumulatedContext relevantChunks allDocs =
     (let context = relevantSections relevantChunks @ fullHeader
      in fst (fullDocLoop allDocs (context, int (length context))))"

definition closingInstruction :: jsstring where
  "closingInstruction =
     lit ''\<newline>\<newline>IMPORTANT: Copy the EXACT text from the document that answers this question. Do not paraphrase or interpret:''"

definition questionBlock :: "jsstring \<Rightarrow> jsstring" where
  "questionBlock query =
     doubleBar @ lit ''\<newline>USER QUESTION: '' @ query @ lit ''\<newline>'' @ doubleBar @
     closingInstruction"

definition finalContext :: "jsstring \<Rightarrow> jsstring \<Rightarrow> jsstring" where
  "finalContext context query =
     systemPrompt @ lit ''\<newline>\<newline>'' @ context @ lit ''\<newline>\<newline>'' @ questionBlock query"

definition buildRAGContext :: "Env \<Rightarrow> jsstring \<Rightarrow> nat \<Rightarrow> State \<Rightarrow> (exn + jsstring) \<times> State" where
  "buildRAGContext env query topK s =
     (let allDocs = getAllDocuments s in
      if length allDocs = 0 then (Inr query, s)
      else
        (case searchDocuments env query topK s of
           (Inl e, s') \<Rightarrow> (Inl e, s')
         | (Inr relevantChunks, s') \<Rightarrow>
             (Inr (finalContext (accumulatedContext relevantChunks allDocs) query), s')))"

section \<open>File parsers\<close>

text \<open>A call of \<open>onProgress\<close>: the progress value and the status line.\<close>

type_synonym progress = "jsnum \<times> jsstring"

text \<open>
  An entry of \<open>textContent.items\<close>: a string, or an object whose \<open>str\<close> and \<open>text\<close>
  may be missing.
\<close>

datatype TextItem = ItemString jsstring | ItemObject "jsstring option" "jsstring option"

text \<open>
  A page as the libraries present it: the items of \<open>getTextContent\<close> (or the exception
  thrown while the page's text is read), whether the canvas gives a 2D context, and the
  text that rendering and \<open>Tesseract.recognize\<close> produce (or the exception they throw).
\<close>

record PdfPage =
  page_textContent :: "exn + TextItem list"
  page_canvasContext :: bool
  page_recognized :: "exn + jsstring"

text \<open>
  A \<open>File\<close>: its name, MIME type and size, and what each reader makes of its bytes:
  \<open>file.text()\<close>, the pages of \<open>pdfjsLib.getDocument\<close>, the \<open>value\<close> of
  \<open>mammoth.extractRawText\<close> (empty when missing) and the sheets of \<open>XLSX.read\<close>, each with
  its name and its \<open>sheet_to_csv\<close>; or the exception the reader throws.
\<close>

record File =
  file_name :: jsstring
  file_type :: jsstring
  file_size :: nat
  file_text :: "exn + jsstring"
  file_pdf :: "exn + PdfPage list"
  file_docx :: "exn + jsstring"
  file_xlsx :: "exn + (jsstring \<times> jsstring) list"

definition parseExcel :: "File \<Rightarrow> exn + jsstring" where
  "parseExcel file =
     (case file_xlsx file of
        Inl e \<Rightarrow> Inl (Error (lit ''Failed to parse Excel file''))
      | Inr sheets \<Rightarrow>
          (let fullText =
                 fold (\<lambda>(sheetName, csv) fullText.
                         fullText @ lit ''\<newline>--- Sheet: '' @ sheetName @ lit '' ---\<newline>'' @ csv @
                         lit ''\<newline>'')
                   sheets []
           in if length (trim fullText) < 10 then Inl (Error (lit ''Failed to parse Excel file''))
              else Inr (trim fullText)))"

definition docxFailure :: exn where
  "docxFailure =
     Error (lit ''Failed to parse DOCX file. Please ensure it'' @ [0x0027] @
            lit ''s a valid Word document.'')"

definition parseDOCX :: "File \<Rightarrow> exn + jsstring" where
  "parseDOCX file =
     (case file_docx file of
        Inl e \<Rightarrow> Inl docxFailure
      | Inr val \<Rightarrow>
          if val = [] \<or> length (trim val) < 10 then Inl docxFailure else Inr val)"

text \<open>The string an item contributes: the \<open>map\<close> callback of \<open>parsePDF\<close>.\<close>

fun itemString :: "TextItem \<Rightarrow> jsstring" where
  "itemString (ItemString s) = s"
| "itemString (ItemObject (Some str) text) =
     (if str \<noteq> [] then str else (case text of Some t \<Rightarrow> t | None \<Rightarrow> []))"
| "itemString (ItemObject None text) = (case text of Some t \<Rightarrow> t | None \<Rightarrow> [])"

definition pageText :: "TextItem list \<Rightarrow> jsstring" where
  "pageText items = join [space] (filter (\<lambda>t. length (trim t) > 0) (map itemString items))"

text \<open>The text extraction loop over the pages; its state is \<open>fullText\<close>.\<close>

fun extractLoop :: "PdfPage list \<Rightarrow> jsstring \<Rightarrow> exn + jsstring" where
  "extractLoop [] fullText = Inr fullText"
| "extractLoop (page # rest) fullText =
     (case page_textContent page of
        Inl e \<Rightarrow> Inl e
      | Inr items \<Rightarrow>
          extractLoop rest
            (if trim (pageText items) \<noteq> [] then fullText @ pageText items @ lit ''\<newline>\<newline>''
             else fullText))"

text \<open>
  The OCR loop, \<open>pageNum\<close> from 1 to \<open>Math.min(pdf.numPages, 10)\<close>; its state is
  \<open>ocrText\<close> and the calls of \<open>onProgress\<close> made so far. \<open>ocrPageCall\<close> is the call
  made for a page.
\<close>

definition ocrPageCall :: "nat \<Rightarrow> nat \<Rightarrow> progress" where
  "ocrPageCall numPages pageNum =
     (jsadd (Fin 40)
        (jsdiv (jsmul (Fin 50) (Fin (real pageNum))) (Fin (real (min numPages 10)))),
      lit ''OCR processing page '' @ showNat pageNum @ lit ''...'')"

function ocrLoop :: "PdfPage list \<Rightarrow> nat \<Rightarrow> jsstring \<times> progress list \<Rightarrow> (exn + jsstring) \<times> progress list" where
  "ocrLoop pages pageNum (ocrText, calls) =
     (if pageNum \<le> min (length pages) 10 then
        (let calls' = calls @ [ocrPageCall (length pages) pageNum];
             page = pages ! (pageNum - 1)
         in if \<not> page_canvasContext page then ocrLoop pages (pageNum + 1) (ocrText, calls')
            else (case page_recognized page of
                    Inl e \<Rightarrow> (Inl e, calls')
                  | Inr recognized \<Rightarrow>
                      ocrLoop pages (pageNum + 1) (ocrText @ recognized @ lit ''\<newline>\<newline>'', calls')))
      else (Inr ocrText, calls))"
  by pat_completeness auto
termination
  by (relation "measure (\<lambda>(pages, pageNum, acc). Suc (min (length pages) 10) - pageNum)") auto

declare ocrLoop.simps [simp del]

definition ocrNotice :: progress where
  "ocrNotice = (Fin 40, lit ''Scanned PDF detected, using OCR...'')"

text \<open>The \<open>try\<close> block of \<open>parsePDF\<close>.\<close>

definition parsePDFBody :: "File \<Rightarrow> (exn + jsstring) \<times> progress list" where
  "parsePDFBody file =
     (let calls = [(Fin 20, lit ''Loading PDF...'')] in
      case file_pdf file of
        Inl e \<Rightarrow> (Inl e, calls)
      | Inr pages \<Rightarrow>
          (let calls = calls @ [(Fin 30, lit ''Extracting text...'')] in
           case extractLoop pages [] of
             Inl e \<Rightarrow> (Inl e, calls)
           | Inr fullText \<Rightarrow>
               if length (trim fullText) < 10 then
                 (case ocrLoop pages 1 ([], calls @ [ocrNotice]) of
                    (Inl e, calls) \<Rightarrow> (Inl e, calls)
                  | (Inr ocrText, calls) \<Rightarrow>
                      if length (trim ocrText) < 10 then
                        (Inl (Error (lit ''Could not extract text from PDF using OCR'')), calls)
                      else (Inr (trim ocrText), calls))
               else (Inr (trim fullText), calls)))"

text \<open>\<open>parsePDF\<close>: the \<open>catch\<close> wraps the message of every exception of the block.\<close>

definition parsePDF :: "File \<Rightarrow> (exn + jsstring) \<times> progress list" where
  "parsePDF file =
     (case parsePDFBody file of
        (Inl e, calls) \<Rightarrow>
          (Inl (Error (lit ''Failed to parse PDF: '' @
                  (case e of Error message \<Rightarrow> message | NonError \<Rightarrow> lit ''Unknown error''))),
           calls)
      | (Inr parsed, calls) \<Rightarrow> (Inr parsed, calls))"

text \<open>\<open>fileName.endsWith(ext)\<close>\<close>

definition endsWith :: "jsstring \<Rightarrow> jsstring \<Rightarrow> bool" where
  "endsWith s ext = suffix ext s"

text \<open>
  \<open>parseFile\<close>: the tests on the MIME type and on the lower-cased name, in the order of
  the source; the \<open>catch\<close> rethrows what it caught.
\<close>

definition parseFile :: "Env \<Rightarrow> File \<Rightarrow> (exn + jsstring) \<times> progress list" where
  "parseFile env file =
     (let fileType = file_type file;
          fileName = toLowerCase env (file_name file)
      in if fileType = lit ''text/plain'' \<or> endsWith fileName (lit ''.txt'') \<or>
            endsWith fileName (lit ''.md'') then (file_text file, [])
         else if fileType = lit ''application/pdf'' \<or> endsWith fileName (lit ''.pdf'') then
           parsePDF file
         else if fileType =
                 lit ''application/vnd.openxmlformats-officedocument.wordprocessingml.document'' \<or>
                 endsWith fileName (lit ''.docx'') then (parseDOCX file, [])
         else if fileType = lit ''application/vnd.openxmlformats-officedocument.spreadsheetml.sheet'' \<or>
                 fileType = lit ''application/vnd.ms-excel'' \<or>
                 endsWith fileName (lit ''.xlsx'') \<or> endsWith fileName (lit ''.xls'') then
           (parseExcel file, [])
         else
           (Inl (Error (lit ''Unsupported file type: '' @
                   (if fileType \<noteq> [] then fileType else fileName))), []))"

section \<open>Upload\<close>

definition jsfloor :: "jsnum \<Rightarrow> jsnum" where
  "jsfloor x = (case x of Fin r \<Rightarrow> Fin (of_int \<lfloor>r\<rfloor>) | PosInf \<Rightarrow> PosInf | NegInf \<Rightarrow> NegInf | NaN \<Rightarrow> NaN)"

definition emptyMetadata :: Metadata where
  "emptyMetadata =
     \<lparr>meta_page = None, meta_section = None, meta_chunkIndex = None, meta_similarity = None,
      meta_documentName = None\<rparr>"

text \<open>The chunk pushed without an embedding.\<close>

definition plainChunk :: "jsstring \<Rightarrow> nat \<Rightarrow> jsstring \<Rightarrow> DocumentChunk" where
  "plainChunk documentId i chunkContent =
     \<lparr>chunk_id = documentId @ lit ''_chunk_'' @ showNat i,
      chunk_documentId = documentId,
      chunk_content = chunkContent,
      chunk_embedding = None,
      chunk_metadata = emptyMetadata\<lparr>meta_chunkIndex := Some i\<rparr>\<rparr>"

text \<open>
  The \<open>for (let i = 0; i < totalChunks; i++)\<close> loop of \<open>uploadDocument\<close>; its state is
  \<open>chunks\<close> and the calls of \<open>onProgress\<close> made so far. An exception of
  \<open>generateEmbedding\<close> is caught and the chunk is pushed without an embedding.
\<close>

function embedLoop :: "Env \<Rightarrow> bool \<Rightarrow> jsstring \<Rightarrow> jsstring list \<Rightarrow> nat \<Rightarrow> DocumentChunk list \<times> progress list \<Rightarrow> DocumentChunk list \<times> progress list" where
  "embedLoop env useEmbeddings documentId textChunks i (chunks, calls) =
     (let totalChunks = length textChunks in
      if i < totalChunks then
        (let chunkContent = textChunks ! i in
         if useEmbeddings then
           (let calls' = calls @
                  [(jsadd (Fin 60)
                      (jsfloor (jsmul (jsdiv (Fin (real i)) (Fin (real totalChunks))) (Fin 30))),
                    lit ''Embedding '' @ showNat (i + 1) @ lit ''/'' @ showNat totalChunks @ lit ''...'')]
            in case generateEmbedding (embeddingsEndpoint env i) chunkContent of
                 Inr embedding \<Rightarrow>
                   embedLoop env useEmbeddings documentId textChunks (i + 1)
                     (chunks @ [(plainChunk documentId i chunkContent)\<lparr>chunk_embedding := Some embedding\<rparr>],
                      calls')
               | Inl e \<Rightarrow>
                   embedLoop env useEmbeddings documentId textChunks (i + 1)
                     (chunks @ [plainChunk documentId i chunkContent], calls'))
         else
           embedLoop env useEmbeddings documentId textChunks (i + 1)
             (chunks @ [plainChunk documentId i chunkContent], calls))
      else (chunks, calls))"
  by pat_completeness auto
termination
  by (relation "measure (\<lambda>(env, useEmbeddings, documentId, textChunks, i, acc). length textChunks - i)") auto

declare embedLoop.simps [simp del]

text \<open>
  \<open>uploadDocument\<close>: the result, the calls of \<open>onProgress\<close> and the new state. The
  \<open>catch\<close> rethrows what it caught.
\<close>

definition uploadDocument :: "Env \<Rightarrow> File \<Rightarrow> State \<Rightarrow> ((exn + Document) \<times> progress list) \<times> State" where
  "uploadDocument env file s =
     (let calls = [(Fin 10, lit ''Parsing document...'')] in
      case parseFile env file of
        (Inl e, parsing) \<Rightarrow> ((Inl e, calls @ parsing), s)
      | (Inr content, parsing) \<Rightarrow>
          (let calls = calls @ parsing @ [(Fin 50, lit ''Chunking text...'')];
               textChunks = chunkText content 800 100;
               documentId = lit ''doc_'' @ showNat (dateNow env) @ lit ''_'' @
                            take 9 (drop 2 (mathRandom36 env));
               calls = calls @ [(Fin 60, lit ''Checking embedding model...'')];
               (useEmbeddings, s) = checkEmbeddingModel env s;
               (chunks, calls) = embedLoop env useEmbeddings documentId textChunks 0 ([], calls);
               calls = calls @ [(Fin 95, lit ''Saving...'')];
               document =
                 \<lparr>doc_id = documentId,
                  doc_name = file_name file,
                  doc_type = file_type file,
                  doc_size = file_size file,
                  doc_uploadedAt = Fin (real (newDate env)),
                  doc_content = content,
                  doc_chunks = chunks\<rparr>;
               s = s\<lparr>documentsStore := setItem documentId document (documentsStore s)\<rparr>;
               calls = calls @ [(Fin 100, lit ''Complete!'')]
           in ((Inr document, calls), s)))"

section \<open>Definitions used in the proofs\<close>

text \<open>
  The loop of \<open>chunkText\<close> with the buffers recorded as they are when pushed, before
  \<open>trim\<close>: the same tests and the same updates of \<open>currentChunk\<close> as \<open>chunkLoop\<close>.
\<close>

fun chunkBuffers :: "nat \<Rightarrow> nat \<Rightarrow> jsstring list \<Rightarrow> jsstring list \<times> jsstring \<Rightarrow> jsstring list \<times> jsstring" where
  "chunkBuffers chunkSize overlap [] (buffers, currentChunk) = (buffers, currentChunk)"
| "chunkBuffers chunkSize overlap (sentence # rest) (buffers, currentChunk) =
     (let trimmedSentence = trim sentence in
      if length (currentChunk @ trimmedSentence) > chunkSize \<and> length currentChunk > 0 then
        chunkBuffers chunkSize overlap rest
          (buffers @ [currentChunk],
           join [space] (overlapWords overlap currentChunk) @ [space] @ trimmedSentence)
      else
        chunkBuffers chunkSize overlap rest
          (buffers,
           currentChunk @ (if currentChunk \<noteq> [] then lit ''. '' else []) @ trimmedSentence))"

text \<open>
  The buffers of \<open>chunkText\<close>: the values of \<open>currentChunk\<close> at its pushes, before
  \<open>trim\<close>, in the order of the pushes.
\<close>

definition pushedBuffers :: "jsstring \<Rightarrow> nat \<Rightarrow> nat \<Rightarrow> jsstring list" where
  "pushedBuffers text chunkSize overlap =
     (let (buffers, currentChunk) = chunkBuffers chunkSize overlap (sentencesOf text) ([], [])
      in if length (trim currentChunk) > 0 then buffers @ [currentChunk] else buffers)"

text \<open>
  How a buffer starts: the first one with a trimmed sentence, a later one with the words
  carried over from the buffer pushed before it, a space and a trimmed sentence.
\<close>

definition segmentStart :: "nat \<Rightarrow> jsstring option \<Rightarrow> jsstring \<Rightarrow> jsstring" where
  "segmentStart overlap previous trimmedSentence =
     (case previous of
        None \<Rightarrow> trimmedSentence
      | Some p \<Rightarrow> join [space] (overlapWords overlap p) @ [space] @ trimmedSentence)"

text \<open>
  A buffer as the loop builds it: its start, then the sentences appended while the budget
  allows, each after the separator \<open>". "\<close>; it ends with a trimmed sentence.
\<close>

definition built :: "jsstring set \<Rightarrow> nat \<Rightarrow> nat \<Rightarrow> jsstring option \<Rightarrow> jsstring \<Rightarrow> bool" where
  "built S chunkSize overlap previous b \<longleftrightarrow>
     (\<exists>s\<in>S. \<exists>more. b = segmentStart overlap previous (trim s) @ more \<and>
        (more = [] \<or> length b \<le> chunkSize + 2)) \<and>
     (\<exists>s\<in>S. suffix (trim s) b)"

text \<open>
A property that every element of a list has with respect to the element before it.
\<close>

fun chain :: "('a option \<Rightarrow> 'a \<Rightarrow> bool) \<Rightarrow> 'a option \<Rightarrow> 'a list \<Rightarrow> bool" where
  "chain P previous [] \<longleftrightarrow> True"
| "chain P previous (x # xs) \<longleftrightarrow> P previous x \<and> chain P (Some x) xs"

text \<open>The values a sum of products with a zero vector can take.\<close>

definition zeroOrNaN :: "jsnum \<Rightarrow> bool" where
  "zeroOrNaN x \<longleftrightarrow> x = Fin 0 \<or> x = NaN"

text \<open>
  Concrete values for the evaluations below: an environment whose case tables are those
  of ASCII and whose endpoints give fixed answers, a server that cannot be reached, and
  small documents and stores.
\<close>

definition asciiLower :: "jschar \<Rightarrow> jschar" where
  "asciiLower c = (if 0x41 \<le> c \<and> c \<le> 0x5A then c + 0x20 else c)"

definition asciiUpper :: "jschar \<Rightarrow> jschar" where
  "asciiUpper c = (if 0x61 \<le> c \<and> c \<le> 0x7A then c - 0x20 else c)"

definition sampleEnv :: "jsstring list fetched \<Rightarrow> jsnum list fetched \<Rightarrow> Env" where
  "sampleEnv tags embeddings =
     \<lparr>toLowerCase = map asciiLower, canonicalize = asciiUpper, tagsEndpoint = tags,
      embeddingsEndpoint = (\<lambda>n text. embeddings), dateNow = 1700000000000,
      mathRandom36 = lit ''0.4fzyo82mvyr'', newDate = 1700000000123\<rparr>"

definition offline :: "'a fetched" where
  "offline = Rejected (Error (lit ''Failed to fetch''))"

definition sampleChunk :: "jsstring \<Rightarrow> jsnum list option \<Rightarrow> DocumentChunk" where
  "sampleChunk chunkContent embedding =
     (plainChunk (lit ''doc_1'') 0 chunkContent)\<lparr>chunk_embedding := embedding\<rparr>"

definition sampleDocument :: "jsstring \<Rightarrow> DocumentChunk list \<Rightarrow> Document" where
  "sampleDocument content chunks =
     \<lparr>doc_id = lit ''doc_1'', doc_name = lit ''a.txt'', doc_type = lit ''text/plain'',
      doc_size = length content, doc_uploadedAt = Fin 0, doc_content = content,
      doc_chunks = chunks\<rparr>"

definition sampleState :: "Document list \<Rightarrow> State" where
  "sampleState docs =
     \<lparr>documentsStore = map (\<lambda>d. (doc_id d, d)) docs, embeddingModelAvailable = None\<rparr>"

definition similarities :: "DocumentChunk list \<Rightarrow> jsnum option list" where
  "similarities found = map (\<lambda>c. meta_similarity (chunk_metadata c)) found"

definition threeVectors :: State where
  "threeVectors = sampleState [sampleDocument (lit ''x. y. z'')
      [sampleChunk (lit ''x'') (Some [Fin (- 1)]),
       sampleChunk (lit ''y'') (Some [Fin 0]),
       sampleChunk (lit ''z'') (Some [Fin 1])]]"

definition bigDocument :: Document where
  "bigDocument =
     sampleDocument (replicate 299800 (of_char CHR ''a''))
       [sampleChunk (replicate 299800 (of_char CHR ''a'')) None]"

definition smallDocument :: Document where
  "smallDocument =
     sampleDocument (lit ''Red apples. Green pears'')
       [sampleChunk (lit ''Red apples. Green pears'') None]"

text \<open>
  The pieces of the context in the words of the claim: the section of a relevant chunk
  (\<open>index\<close> counts from 0), the text of a document copied whole under its file banner,
  and the text of a document cut to the remaining space.
\<close>

definition sectionOf :: "nat \<Rightarrow> DocumentChunk \<Rightarrow> jsstring" where
  "sectionOf index chunk =
     lit ''[Section '' @ showNat (index + 1) @ lit ''] From '' @ [quote] @
     (case meta_documentName (chunk_metadata chunk) of
        Some n \<Rightarrow> if n \<noteq> [] then n else lit ''Document''
      | None \<Rightarrow> lit ''Document'') @
     [quote] @ lit '':\<newline>'' @ replicate 40 (of_char CHR ''-'') @ lit ''\<newline>'' @
     chunk_content chunk @ lit ''\<newline>\<newline>''"

definition wholeFile :: "Document \<Rightarrow> jsstring" where
  "wholeFile doc = fileHeader doc @ doc_content doc @ lit ''\<newline>''"

definition cutFile :: "int \<Rightarrow> Document \<Rightarrow> jsstring" where
  "cutFile remainingSpace doc =
     fileHeader doc @ take (nat (remainingSpace - 100)) (doc_content doc) @ truncatedMarker"

text \<open>
  The space left of the budget before the document \<open>k\<close>, when the context is \<open>start\<close>
  characters long before the first document and the documents before \<open>k\<close> are copied
  whole; the document \<open>k\<close> fits when at least 1000 characters are left and its content
  is not longer than what is left.
\<close>

definition spaceBefore :: "int \<Rightarrow> Document list \<Rightarrow> nat \<Rightarrow> int" where
  "spaceBefore start docs k =
     maxTotalLength - start - int (sum_list (map (\<lambda>doc. length (doc_content doc)) (take k docs)))"

definition fits :: "int \<Rightarrow> Document list \<Rightarrow> nat \<Rightarrow> bool" where
  "fits start docs k \<longleftrightarrow>
     1000 \<le> spaceBefore start docs k \<and>
     int (length (doc_content (docs ! k))) \<le> spaceBefore start docs k"

text \<open>
  A store of two documents: the document of 299800 characters and, after it, a small one
  under another key.
\<close>

definition appendixDocument :: Document where
  "appendixDocument = smallDocument \<lparr>doc_id := lit ''doc_2'', doc_name := lit ''b.txt''\<rparr>"

definition twoDocuments :: State where
  "twoDocuments = sampleState [bigDocument, appendixDocument]"

text \<open>
  The calls of \<open>onProgress\<close> that show the OCR pass: a call made for a page of the
  OCR loop, and the calls made when the OCR loop starts.
\<close>

definition isPageCall :: "progress \<Rightarrow> bool" where
  "isPageCall call \<longleftrightarrow> prefix (lit ''OCR processing page '') (snd call)"

definition ocrStart :: "progress list" where
  "ocrStart = [(Fin 20, lit ''Loading PDF...''), (Fin 30, lit ''Extracting text...''), ocrNotice]"

text \<open>
  Sample files: a scanned PDF of one page without text items whose OCR gives three
  characters, and a PDF of one page with two text items.
\<close>

definition samplePage :: "TextItem list \<Rightarrow> jsstring \<Rightarrow> PdfPage" where
  "samplePage items recognized =
     \<lparr>page_textContent = Inr items, page_canvasContext = True, page_recognized = Inr recognized\<rparr>"

definition sampleFile :: "jsstring \<Rightarrow> jsstring \<Rightarrow> jsstring \<Rightarrow> PdfPage list \<Rightarrow> File" where
  "sampleFile fileName fileType content pages =
     \<lparr>file_name = fileName, file_type = fileType, file_size = length content,
      file_text = Inr content, file_pdf = Inr pages, file_docx = Inl NonError,
      file_xlsx = Inl NonError\<rparr>"

definition scannedPdf :: File where
  "scannedPdf = sampleFile (lit ''scan.pdf'') (lit ''application/pdf'') [] [samplePage [] (lit ''abc'')]"

definition textPdf :: File where
  "textPdf = sampleFile (lit ''report.pdf'') (lit ''application/pdf'') []
     [samplePage [ItemObject (Some (lit ''Annual report'')) None, ItemString (lit ''2024'')] []]"

text \<open>
  The OCR pass in the words of the claim. A page fails when it gives a canvas context
  and its rendering or recognition throws; the output of the pass over some pages is the
  recognized text of those that give a canvas context, each followed by two line breaks.
  The text read directly is the text of the pages whose items are not blank, each followed
  by two line breaks.
\<close>

definition ocrFails :: "PdfPage \<Rightarrow> bool" where
  "ocrFails page \<longleftrightarrow> page_canvasContext page \<and> isl (page_recognized page)"

definition ocrOutput :: "PdfPage list \<Rightarrow> jsstring" where
  "ocrOutput pages =
     concat (map (\<lambda>page. case page_recognized page of
                            Inl e \<Rightarrow> []
                          | Inr recognized \<Rightarrow> recognized @ lit ''\<newline>\<newline>'')
               (filter page_canvasContext pages))"

definition extractedText :: "PdfPage list \<Rightarrow> jsstring" where
  "extractedText pages =
     concat (map (\<lambda>page. case page_textContent page of
                            Inl e \<Rightarrow> []
                          | Inr items \<Rightarrow>
                              if trim (pageText items) \<noteq> [] then pageText items @ lit ''\<newline>\<newline>''
                              else [])
               pages)"

text \<open>
  The calls of \<open>onProgress\<close> made before the OCR pass can start, and the error that the
  \<open>catch\<close> of \<open>parsePDF\<close> throws for a caught exception.
\<close>

definition textCalls :: "progress list" where
  "textCalls = [(Fin 20, lit ''Loading PDF...''), (Fin 30, lit ''Extracting text...'')]"

definition failure :: "exn \<Rightarrow> exn" where
  "failure e =
     Error (lit ''Failed to parse PDF: '' @
            (case e of Error message \<Rightarrow> message | NonError \<Rightarrow> lit ''Unknown error''))"

text \<open>
  Two more scanned files. A book of eleven pages without text items: the first page gives
  no canvas context, the next nine are recognized as \<open>"scan"\<close>, the eleventh as
  \<open>"eleventh"\<close>. A file of three pages whose second page makes the recognition throw.
\<close>

definition bookPages :: "PdfPage list" where
  "bookPages = (samplePage [] (lit ''lost'')) \<lparr>page_canvasContext := False\<rparr> #
      replicate 9 (samplePage [] (lit ''scan'')) @ [samplePage [] (lit ''eleventh'')]"

definition scannedBook :: File where
  "scannedBook = sampleFile (lit ''book.pdf'') (lit ''application/pdf'') [] bookPages"

definition brokenPages :: "PdfPage list" where
  "brokenPages = [samplePage [] (lit ''first page''),
      (samplePage [] []) \<lparr>page_recognized := Inl (Error (lit ''out of memory''))\<rparr>,
      samplePage [] (lit ''third page'')]"

definition brokenScan :: File where
  "brokenScan = sampleFile (lit ''broken.pdf'') (lit ''application/pdf'') [] brokenPages"

text \<open>
  The dispatch of \<open>parseFile\<close> in the words of the specification: a file has a format
  when its MIME type or the extension of its lower-cased name says so; each format has
  one extractor; the format of a file is the first one it has, in the order plain text,
  PDF, DOCX, spreadsheet; a file that has none is refused.
\<close>

datatype format = PlainText | Pdf | Docx | Spreadsheet

fun hasFormat :: "Env \<Rightarrow> File \<Rightarrow> format \<Rightarrow> bool" where
  "hasFormat env file PlainText \<longleftrightarrow>
     file_type file = lit ''text/plain'' \<or>
     suffix (lit ''.txt'') (toLowerCase env (file_name file)) \<or>
     suffix (lit ''.md'') (toLowerCase env (file_name file))"
| "hasFormat env file Pdf \<longleftrightarrow>
     file_type file = lit ''application/pdf'' \<or>
     suffix (lit ''.pdf'') (toLowerCase env (file_name file))"
| "hasFormat env file Docx \<longleftrightarrow>
     file_type file = lit ''application/vnd.openxmlformats-officedocument.wordprocessingml.document'' \<or>
     suffix (lit ''.docx'') (toLowerCase env (file_name file))"
| "hasFormat env file Spreadsheet \<longleftrightarrow>
     file_type file = lit ''application/vnd.openxmlformats-officedocument.spreadsheetml.sheet'' \<or>
     file_type file = lit ''application/vnd.ms-excel'' \<or>
     suffix (lit ''.xlsx'') (toLowerCase env (file_name file)) \<or>
     suffix (lit ''.xls'') (toLowerCase env (file_name file))"

fun extractor :: "format \<Rightarrow> File \<Rightarrow> (exn + jsstring) \<times> progress list" where
  "extractor PlainText file = (file_text file, [])"
| "extractor Pdf file = parsePDF file"
| "extractor Docx file = (parseDOCX file, [])"
| "extractor Spreadsheet file = (parseExcel file, [])"

definition formatOf :: "Env \<Rightarrow> File \<Rightarrow> format option" where
  "formatOf env file = find (hasFormat env file) [PlainText, Pdf, Docx, Spreadsheet]"

definition unsupported :: "Env \<Rightarrow> File \<Rightarrow> exn" where
  "unsupported env file =
     Error (lit ''Unsupported file type: '' @
            (if file_type file \<noteq> [] then file_type file else toLowerCase env (file_name file)))"

text \<open>
  The chunk that the loop of \<open>uploadDocument\<close> pushes for the index \<open>i\<close>, and the
  identifier it gives the document.
\<close>

definition uploadedChunk :: "Env \<Rightarrow> bool \<Rightarrow> jsstring \<Rightarrow> jsstring list \<Rightarrow> nat \<Rightarrow> DocumentChunk" where
  "uploadedChunk env useEmbeddings documentId textChunks i =
     (if useEmbeddings then
        (case generateEmbedding (embeddingsEndpoint env i) (textChunks ! i) of
           Inr embedding \<Rightarrow>
             (plainChunk documentId i (textChunks ! i))\<lparr>chunk_embedding := Some embedding\<rparr>
         | Inl e \<Rightarrow> plainChunk documentId i (textChunks ! i))
      else plainChunk documentId i (textChunks ! i))"

definition uploadedId :: "Env \<Rightarrow> jsstring" where
  "uploadedId env = lit ''doc_'' @ showNat (dateNow env) @ lit ''_'' @ take 9 (drop 2 (mathRandom36 env))"

text \<open>
  A text file of one chunk, and an environment in which the embedding model is listed
  but every embedding request fails.
\<close>

definition notesFile :: File where
  "notesFile = sampleFile (lit ''notes.txt'') (lit ''text/plain'') (lit ''Hello world. Bye now'') []"

definition failingEmbeddings :: Env where
  "failingEmbeddings = sampleEnv (HttpOk [lit ''nomic-embed-text:latest'']) offline"

text \<open>
  The similarity a returned chunk carries, entries of \<open>scoredChunks\<close> whose score is a
  number, lists of entries in non-increasing score order, and the entries that the two
  scoring loops push.
\<close>

definition similarityOf :: "DocumentChunk \<Rightarrow> jsnum" where
  "similarityOf c = (case meta_similarity (chunk_metadata c) of Some x \<Rightarrow> x | None \<Rightarrow> NaN)"

definition scored :: "Scored \<Rightarrow> bool" where
  "scored item \<longleftrightarrow> sc_score item \<noteq> NaN"

definition descending :: "Scored list \<Rightarrow> bool" where
  "descending items = sorted_wrt (\<lambda>a b. jsge (sc_score a) (sc_score b)) items"

definition vectorEntry :: "jsnum list \<Rightarrow> Scored \<Rightarrow> bool" where
  "vectorEntry queryEmbedding item \<longleftrightarrow>
     (\<exists>embedding. chunk_embedding (sc_chunk item) = Some embedding \<and>
        sc_score item = cosineSimilarity queryEmbedding embedding)"

definition keywordEntry :: "Env \<Rightarrow> jsstring list \<Rightarrow> Scored \<Rightarrow> bool" where
  "keywordEntry env expandedTerms item \<longleftrightarrow>
     (\<exists>n. n = keywordScore env expandedTerms (toLowerCase env (chunk_content (sc_chunk item))) 0 \<and>
        0 < n \<and> sc_score item = Fin (real n))"

text \<open>
  A store without embeddings whose chunks hold the word of the query zero, one and two
  times, and the chunks a search for that word returns.
\<close>

definition fruitStore :: State where
  "fruitStore = sampleState [sampleDocument (lit ''apple. pear. Pear pear'')
      [sampleChunk (lit ''apple'') None,
       sampleChunk (lit ''pear'') None,
       sampleChunk (lit ''Pear pear'') None]]"

definition fruitFound :: "DocumentChunk list" where
  "fruitFound =
     [withSimilarity (Fin (2 / 10))
        \<lparr>sc_chunk = sampleChunk (lit ''Pear pear'') None, sc_score = Fin 2, sc_docName = lit ''a.txt''\<rparr>,
      withSimilarity (Fin (1 / 10))
        \<lparr>sc_chunk = sampleChunk (lit ''pear'') None, sc_score = Fin 1, sc_docName = lit ''a.txt''\<rparr>]"

section \<open>Strings: basic facts\<close>

lemma length_trim_le: "length (trim s) \<le> length s"
proof -
  have "length (trim s) \<le> length (dropWhile isWhiteSpace s)"
    unfolding trim_def using length_dropWhile_le [of isWhiteSpace "rev (dropWhile isWhiteSpace s)"] by simp
  also have "\<dots> \<le> length s"
    by (rule length_dropWhile_le)
  finally show ?thesis .
qed

lemma dropWhile_rev_dropWhile_rev:
  assumes "dropWhile P xs = xs"
  shows "dropWhile P (rev (dropWhile P (rev xs))) = rev (dropWhile P (rev xs))"
proof (cases "dropWhile P (rev xs) = []")
  case True
  then have "rev (dropWhile P (rev xs)) = []" by (simp only: rev.simps)
  then show ?thesis by (simp only: dropWhile.simps)
next
  case False
  define ys where "ys = rev (dropWhile P (rev xs))"
  have ne: "ys \<noteq> []" using False by (simp add: ys_def)
  have "rev xs = takeWhile P (rev xs) @ dropWhile P (rev xs)" by simp
  then have "xs = ys @ rev (takeWhile P (rev xs))"
    unfolding ys_def by (metis rev_append rev_rev_ident)
  then obtain zs where xs: "xs = ys @ zs" by blast
  from ne obtain y ys' where ys: "ys = y # ys'" by (cases ys) auto
  have "xs \<noteq> []" using xs ne by simp
  with assms have "\<not> P (hd xs)"
    by (metis hd_dropWhile)
  then have "\<not> P y" using xs ys by simp
  then show ?thesis
    unfolding ys_def [symmetric] using ys by simp
qed

lemma splitRuns_no_sep: "\<forall>c\<in>set s. \<not> sep c \<Longrightarrow> splitRuns sep s = [s]"
  by (simp add: splitRuns.simps [of sep s])

lemma trim_replicate: "\<not> isWhiteSpace c \<Longrightarrow> trim (replicate n c) = replicate n c"
  by (cases n) (simp_all add: trim_def replicate_append_same [symmetric] del: replicate_Suc)

section \<open>Strings: splitting and joining\<close>

lemma splitOn_not_Nil: "splitOn sep s \<noteq> []"
  by (induction s) (auto split: list.splits)

lemma join_Cons: "ws \<noteq> [] \<Longrightarrow> join sep (w # ws) = w @ sep @ join sep ws"
  by (cases ws) simp_all

lemma join_splitOn: "join [sep] (splitOn sep s) = s"
proof (induction s)
  case Nil
  show ?case by simp
next
  case (Cons c cs)
  show ?case
  proof (cases "c = sep")
    case True
    then show ?thesis
      using Cons.IH by (simp add: join_Cons splitOn_not_Nil)
  next
    case False
    obtain w ws where w: "splitOn sep cs = w # ws"
      using splitOn_not_Nil [of sep cs] by (cases "splitOn sep cs") auto
    show ?thesis
      using False Cons.IH w by (cases ws) simp_all
  qed
qed

lemma splitOn_no_sep: "w \<in> set (splitOn sep s) \<Longrightarrow> sep \<notin> set w"
proof (induction s arbitrary: w)
  case Nil
  then show ?case by simp
next
  case (Cons c cs)
  obtain v vs where v: "splitOn sep cs = v # vs"
    using splitOn_not_Nil [of sep cs] by (cases "splitOn sep cs") auto
  show ?case
    using Cons.prems Cons.IH v by (auto split: if_splits)
qed

lemma length_splitOn: "length (splitOn sep s) = Suc (count_list s sep)"
proof (induction s)
  case Nil
  show ?case by simp
next
  case (Cons c cs)
  obtain v vs where v: "splitOn sep cs = v # vs"
    using splitOn_not_Nil [of sep cs] by (cases "splitOn sep cs") auto
  show ?case
    using Cons.IH v by auto
qed

lemma join_append:
  "xs \<noteq> [] \<Longrightarrow> ys \<noteq> [] \<Longrightarrow> join sep (xs @ ys) = join sep xs @ sep @ join sep ys"
proof (induction xs)
  case Nil
  then show ?case by simp
next
  case (Cons x xs)
  show ?case
  proof (cases "xs = []")
    case True
    then show ?thesis using Cons.prems by (simp add: join_Cons)
  next
    case False
    then show ?thesis using Cons by (simp add: join_Cons)
  qed
qed

lemma count_join:
  "\<forall>w\<in>set ws. sep \<notin> set w \<Longrightarrow> ws \<noteq> [] \<Longrightarrow> count_list (join [sep] ws) sep = length ws - 1"
proof (induction ws)
  case Nil
  then show ?case by simp
next
  case (Cons w ws)
  have w: "count_list w sep = 0"
    using Cons.prems(1) by (simp add: count_list_0_iff)
  show ?case
  proof (cases "ws = []")
    case True
    then show ?thesis using w by simp
  next
    case False
    then have "count_list (join [sep] ws) sep = length ws - 1"
      using Cons by simp
    then show ?thesis
      using False w by (simp add: join_Cons)
  qed
qed

lemma suffix_join_drop: "suffix (join sep (drop k ws)) (join sep ws)"
proof (cases "k = 0 \<or> length ws \<le> k")
  case True
  then show ?thesis by auto
next
  case False
  then have parts: "take k ws \<noteq> []" "drop k ws \<noteq> []"
    by auto
  have "join sep (take k ws @ drop k ws) = join sep (take k ws) @ sep @ join sep (drop k ws)"
    by (rule join_append [OF parts])
  then have "join sep ws = (join sep (take k ws) @ sep) @ join sep (drop k ws)"
    by simp
  then show ?thesis
    unfolding suffix_def by blast
qed

lemma last_trim: "trim s \<noteq> [] \<Longrightarrow> \<not> isWhiteSpace (last (trim s))"
proof -
  assume a: "trim s \<noteq> []"
  define e where "e = dropWhile isWhiteSpace (rev (dropWhile isWhiteSpace s))"
  have e: "e \<noteq> []" using a by (simp add: trim_def e_def)
  then have "\<not> isWhiteSpace (hd e)"
    unfolding e_def by (rule hd_dropWhile)
  moreover have "last (trim s) = hd e"
    using e by (simp add: trim_def e_def [symmetric] last_rev)
  ultimately show ?thesis by simp
qed

lemma trim_dropWhile:
  assumes "b \<noteq> []" and "\<not> isWhiteSpace (last b)"
  shows "trim b = dropWhile isWhiteSpace b"
proof -
  define d where "d = dropWhile isWhiteSpace b"
  have "last b \<in> set b" using assms(1) by simp
  then have d: "d \<noteq> []"
    using assms(2) by (auto simp: d_def dropWhile_eq_Nil_conv)
  have "suffix d b"
    unfolding d_def by (rule suffix_dropWhile)
  then obtain p where "b = p @ d"
    by (auto simp: suffix_def)
  then have "last d = last b"
    using d by simp
  then have "\<not> isWhiteSpace (hd (rev d))"
    using assms(2) d by (simp add: hd_rev)
  moreover have "rev d \<noteq> []" using d by simp
  ultimately have "dropWhile isWhiteSpace (rev d) = rev d"
    by (cases "rev d") simp_all
  then show ?thesis
    by (simp add: trim_def d_def [symmetric])
qed

section \<open>Chunker: the buffers\<close>

lemma chunkLoop_chunkBuffers:
  "chunkLoop chunkSize overlap ss (map trim bs, cur) =
     (map trim (fst (chunkBuffers chunkSize overlap ss (bs, cur))),
      snd (chunkBuffers chunkSize overlap ss (bs, cur)))"
proof (induction ss arbitrary: bs cur)
  case Nil
  show ?case by simp
next
  case (Cons sentence rest)
  show ?case
    using Cons.IH [of "bs @ [cur]"] Cons.IH [of bs]
    by (simp add: Let_def)
qed

lemma chain_append:
  "chain P previous (xs @ ys) \<longleftrightarrow>
     chain P previous xs \<and> chain P (if xs = [] then previous else Some (last xs)) ys"
  by (induction xs arbitrary: previous) auto

lemma chain_nth:
  "chain P previous xs \<Longrightarrow> i < length xs \<Longrightarrow>
   P (if i = 0 then previous else Some (xs ! (i - 1))) (xs ! i)"
proof (induction xs arbitrary: previous i)
  case Nil
  then show ?case by simp
next
  case (Cons x xs)
  show ?case
  proof (cases i)
    case 0
    then show ?thesis using Cons.prems by simp
  next
    case (Suc k)
    then have "P (if k = 0 then Some x else Some (xs ! (k - 1))) (xs ! k)"
      using Cons.IH [of "Some x" k] Cons.prems by simp
    then show ?thesis
      using Suc by (cases k) simp_all
  qed
qed

lemma chunkText_pushedBuffers:
  "chunkText text chunkSize overlap = map trim (pushedBuffers text chunkSize overlap)"
proof -
  obtain bs cur where run: "chunkBuffers chunkSize overlap (sentencesOf text) ([], []) = (bs, cur)"
    by (cases "chunkBuffers chunkSize overlap (sentencesOf text) ([], [])") auto
  have loop: "chunkLoop chunkSize overlap (sentencesOf text) ([], []) = (map trim bs, cur)"
    using chunkLoop_chunkBuffers [of chunkSize overlap "sentencesOf text" "[]" "[]"] run by simp
  show ?thesis
    by (simp add: chunkText_def pushedBuffers_def loop run)
qed

lemma chunkBuffers_built:
  assumes "chunkBuffers chunkSize overlap ss (bs, cur) = (bs', cur')"
    and "set ss \<subseteq> S"
    and "\<forall>s\<in>S. trim s \<noteq> []"
    and "(bs = [] \<and> cur = []) \<or> (cur \<noteq> [] \<and> chain (built S chunkSize overlap) None (bs @ [cur]))"
  shows "(bs' = [] \<and> cur' = []) \<or> (cur' \<noteq> [] \<and> chain (built S chunkSize overlap) None (bs' @ [cur']))"
  using assms
proof (induction ss arbitrary: bs cur)
  case Nil
  then show ?case by simp
next
  case (Cons sentence rest)
  let ?t = "trim sentence"
  have S: "sentence \<in> S" "set rest \<subseteq> S" using Cons.prems(2) by auto
  have t: "?t \<noteq> []" using S(1) Cons.prems(3) by blast
  show ?case
  proof (cases "length (cur @ ?t) > chunkSize \<and> length cur > 0")
    case True
    let ?new = "join [space] (overlapWords overlap cur) @ [space] @ ?t"
    have run: "chunkBuffers chunkSize overlap rest (bs @ [cur], ?new) = (bs', cur')"
      using Cons.prems(1) True by (auto simp: Let_def)
    have old: "chain (built S chunkSize overlap) None (bs @ [cur])"
      using Cons.prems(4) True by auto
    have "?new = segmentStart overlap (Some cur) ?t @ []"
      by (simp add: segmentStart_def)
    moreover have "suffix ?t ?new"
      by (simp add: suffix_def)
    ultimately have "built S chunkSize overlap (Some cur) ?new"
      unfolding built_def using S(1) by blast
    then have "chain (built S chunkSize overlap) None ((bs @ [cur]) @ [?new])"
      using old by (simp add: chain_append)
    moreover have "?new \<noteq> []" by simp
    ultimately show ?thesis
      using Cons.IH [OF run S(2) Cons.prems(3)] by blast
  next
    case False
    let ?new = "cur @ (if cur \<noteq> [] then lit ''. '' else []) @ ?t"
    have run: "chunkBuffers chunkSize overlap rest (bs, ?new) = (bs', cur')"
      using Cons.prems(1) False by (auto simp: Let_def)
    have new: "?new \<noteq> []" using t by simp
    have "chain (built S chunkSize overlap) None (bs @ [?new])"
    proof (cases "cur = []")
      case True
      then have bs: "bs = []" using Cons.prems(4) by auto
      have "?new = segmentStart overlap None ?t @ []"
        using True by (simp add: segmentStart_def)
      moreover have "suffix ?t ?new"
        using True by simp
      ultimately have "built S chunkSize overlap None ?new"
        unfolding built_def using S(1) by blast
      then show ?thesis using bs by simp
    next
      case nonempty: False
      define previous where "previous = (if bs = [] then None else Some (last bs))"
      have old: "chain (built S chunkSize overlap) None bs" "built S chunkSize overlap previous cur"
        using Cons.prems(4) nonempty by (auto simp: chain_append previous_def)
      from old(2) obtain s more where s: "s \<in> S" "cur = segmentStart overlap previous (trim s) @ more"
        unfolding built_def by blast
      from nonempty False have "length cur + length ?t \<le> chunkSize" by simp
      then have len: "length ?new \<le> chunkSize + 2"
        using nonempty by (simp add: lit_def)
      have "?new = segmentStart overlap previous (trim s) @ (more @ lit ''. '' @ ?t)"
        using s(2) nonempty by simp
      moreover have "suffix ?t ?new"
        by (simp add: suffix_def)
      ultimately have "built S chunkSize overlap previous ?new"
        unfolding built_def using s(1) S(1) len by blast
      then show ?thesis
        using old(1) by (simp add: chain_append previous_def)
    qed
    with new show ?thesis
      using Cons.IH [OF run S(2) Cons.prems(3)] by blast
  qed
qed

lemma sentencesOf_trim: "\<forall>s\<in>set (sentencesOf text). trim s \<noteq> []"
  by (simp add: sentencesOf_def)

lemma pushedBuffers_chain:
  "chain (built (set (sentencesOf text)) chunkSize overlap) None (pushedBuffers text chunkSize overlap)"
proof -
  obtain bs cur where run: "chunkBuffers chunkSize overlap (sentencesOf text) ([], []) = (bs, cur)"
    by (cases "chunkBuffers chunkSize overlap (sentencesOf text) ([], [])") auto
  have "(bs = [] \<and> cur = []) \<or>
        (cur \<noteq> [] \<and> chain (built (set (sentencesOf text)) chunkSize overlap) None (bs @ [cur]))"
    by (rule chunkBuffers_built [OF run _ sentencesOf_trim]) simp_all
  then show ?thesis
    by (auto simp: pushedBuffers_def run chain_append trim_def)
qed

lemma pushedBuffers_built:
  assumes "i < length (pushedBuffers text chunkSize overlap)"
  shows "built (set (sentencesOf text)) chunkSize overlap
           (if i = 0 then None else Some (pushedBuffers text chunkSize overlap ! (i - 1)))
           (pushedBuffers text chunkSize overlap ! i)"
  using chain_nth [OF pushedBuffers_chain assms] .

lemma built_last:
  assumes "built S chunkSize overlap previous b" and "\<forall>s\<in>S. trim s \<noteq> []"
  shows "b \<noteq> [] \<and> \<not> isWhiteSpace (last b)"
proof -
  obtain s where s: "s \<in> S" "suffix (trim s) b"
    using assms(1) unfolding built_def by blast
  have t: "trim s \<noteq> []" using s(1) assms(2) by blast
  obtain p where "b = p @ trim s"
    using s(2) by (auto simp: suffix_def)
  then have "b \<noteq> []" "last b = last (trim s)"
    using t by simp_all
  then show ?thesis
    using last_trim [OF t] by simp
qed

lemma chunkText_dropWhile:
  "chunkText text chunkSize overlap =
     map (dropWhile isWhiteSpace) (pushedBuffers text chunkSize overlap)"
proof -
  have "trim b = dropWhile isWhiteSpace b" if b: "b \<in> set (pushedBuffers text chunkSize overlap)" for b
  proof -
    obtain i where i: "i < length (pushedBuffers text chunkSize overlap)"
      "pushedBuffers text chunkSize overlap ! i = b"
      using b unfolding in_set_conv_nth by blast
    have "b \<noteq> [] \<and> \<not> isWhiteSpace (last b)"
      using built_last [OF pushedBuffers_built [OF i(1)] sentencesOf_trim] unfolding i(2) .
    then show ?thesis
      using trim_dropWhile [of b] by blast
  qed
  then have "map trim (pushedBuffers text chunkSize overlap) =
      map (dropWhile isWhiteSpace) (pushedBuffers text chunkSize overlap)"
    by (rule map_ext [rule_format])
  then show ?thesis
    by (simp only: chunkText_pushedBuffers)
qed

text \<open>
  The text carried over at a split is an end of the buffer. With \<open>floor(overlap / 5)\<close> at
  least 1 it is the end that follows the \<open>floor(overlap / 5)\<close>-th space counted from the
  end, or the whole buffer when it has fewer spaces. With an overlap below 5 the slice is
  \<open>slice(-0)\<close>, which is the whole list of pieces, and the carried text is the whole
  buffer.
\<close>

lemma suffix_carried: "suffix (join [space] (overlapWords overlap b)) b"
proof -
  have "suffix (join [space] (overlapWords overlap b)) (join [space] (splitOn space b))"
    by (simp add: overlapWords_def sliceLast_def suffix_join_drop)
  then show ?thesis
    by (simp add: join_splitOn)
qed

lemma length_carried: "length (join [space] (overlapWords overlap b)) \<le> length b"
  using suffix_carried by (rule suffix_length_le)

lemma carried_text:
  assumes "5 \<le> overlap"
  shows "if count_list b space < overlap div 5
         then join [space] (overlapWords overlap b) = b
         else suffix (space # join [space] (overlapWords overlap b)) b \<and>
              count_list (join [space] (overlapWords overlap b)) space = overlap div 5 - 1"
proof -
  define n where "n = overlap div 5"
  define ws where "ws = splitOn space b"
  have n: "0 < n" using assms by (simp add: n_def)
  have len: "length ws = Suc (count_list b space)"
    by (simp add: ws_def length_splitOn)
  have ow: "overlapWords overlap b = drop (length ws - n) ws"
    using n by (simp add: overlapWords_def sliceLast_def n_def ws_def)
  show ?thesis
  proof (cases "count_list b space < n")
    case True
    then have "drop (length ws - n) ws = ws"
      using len by simp
    then show ?thesis
      using True by (simp add: ow n_def [symmetric]) (simp add: ws_def join_splitOn)
  next
    case False
    define k where "k = length ws - n"
    have k: "0 < k" "k < length ws"
      using False len n by (simp_all add: k_def)
    have parts: "take k ws \<noteq> []" "drop k ws \<noteq> []"
      using k by auto
    have "join [space] (take k ws @ drop k ws) =
        join [space] (take k ws) @ [space] @ join [space] (drop k ws)"
      by (rule join_append [OF parts])
    then have "b = join [space] (take k ws) @ space # join [space] (drop k ws)"
      by (simp add: ws_def join_splitOn)
    then have s: "suffix (space # join [space] (drop k ws)) b"
      unfolding suffix_def by blast
    have "\<forall>w\<in>set (drop k ws). space \<notin> set w"
      using splitOn_no_sep [of _ space b] in_set_dropD [of _ k ws] by (auto simp: ws_def)
    then have "count_list (join [space] (drop k ws)) space = length (drop k ws) - 1"
      using parts(2) by (rule count_join)
    moreover have "length (drop k ws) = n"
      using k by (simp add: k_def)
    ultimately show ?thesis
      using False s by (simp add: ow n_def [symmetric] k_def [symmetric])
  qed
qed

lemma overlapWords_small: "overlap < 5 \<Longrightarrow> join [space] (overlapWords overlap b) = b"
  by (simp add: overlapWords_def sliceLast_def join_splitOn)

section \<open>Chunker: the character budget\<close>

text \<open>
  C2, as stated: every chunk returned by \<open>chunkText\<close> has length at most \<open>chunkSize\<close>.
  It fails at the default budget: a text that is one sentence of 501 characters comes
  back as one chunk of 501 characters, since a sentence is never split (the test
  \<open>currentChunk.length > 0\<close> keeps the first sentence of a buffer whatever its length).
\<close>

theorem chunkText_exceeds_chunkSize:
  "chunkText (replicate 501 (of_char CHR ''a'')) 500 50 = [replicate 501 (of_char CHR ''a'')] \<and>
   length (replicate 501 (of_char CHR ''a'') :: jsstring) > 500"
proof -
  define a :: jschar where "a = of_char CHR ''a''"
  have ws: "\<not> isWhiteSpace a"
    by (simp add: a_def isWhiteSpace_def)
  have se: "\<forall>c\<in>set (replicate 501 a). \<not> isSentenceEnd c"
    by (simp add: a_def isSentenceEnd_def)
  have tr: "trim (replicate 501 a) = replicate 501 a"
    by (rule trim_replicate [OF ws])
  have "splitRuns isSentenceEnd (replicate 501 a) = [replicate 501 a]"
    by (rule splitRuns_no_sep [OF se])
  then have "sentencesOf (replicate 501 a) = [replicate 501 a]"
    by (simp add: sentencesOf_def tr)
  then have "chunkText (replicate 501 a) 500 50 = [replicate 501 a]"
    by (simp add: chunkText_def tr)
  then show ?thesis
    unfolding a_def by simp
qed

text \<open>
  C2, amended: the chunks returned by \<open>chunkText\<close> are the trimmed buffers of its loop,
  and a chunk is at most \<open>chunkSize + 2\<close> characters long (the budget is tested before
  the separator \<open>". "\<close> is added) unless its buffer is an opening segment, which is never
  shortened: for the first buffer a single trimmed sentence, for a later buffer the words
  carried over from the buffer pushed before it, a space and a single trimmed sentence.
  Such a chunk is at most as long as that sentence and, after a split, the previous
  buffer and one space.
\<close>

theorem chunkText_chunk_length:
  "chunkText text chunkSize overlap = map trim (pushedBuffers text chunkSize overlap) \<and>
   (\<forall>i<length (pushedBuffers text chunkSize overlap).
      length (chunkText text chunkSize overlap ! i) \<le> chunkSize + 2 \<or>
      (\<exists>s\<in>set (sentencesOf text).
         pushedBuffers text chunkSize overlap ! i =
           (if i = 0 then trim s
            else join [space] (overlapWords overlap (pushedBuffers text chunkSize overlap ! (i - 1))) @
                 [space] @ trim s) \<and>
         length (chunkText text chunkSize overlap ! i) \<le>
           (if i = 0 then 0 else length (pushedBuffers text chunkSize overlap ! (i - 1)) + 1) +
           length (trim s)))"
proof (intro conjI allI impI)
  show eq: "chunkText text chunkSize overlap = map trim (pushedBuffers text chunkSize overlap)"
    by (rule chunkText_pushedBuffers)
  fix i
  assume i: "i < length (pushedBuffers text chunkSize overlap)"
  define bs where "bs = pushedBuffers text chunkSize overlap"
  define previous where "previous = (if i = 0 then None else Some (bs ! (i - 1)))"
  have c: "chunkText text chunkSize overlap ! i = trim (bs ! i)"
    using i by (simp add: eq bs_def)
  have "built (set (sentencesOf text)) chunkSize overlap previous (bs ! i)"
    unfolding previous_def bs_def by (rule pushedBuffers_built [OF i])
  then obtain s more where s: "s \<in> set (sentencesOf text)"
    "bs ! i = segmentStart overlap previous (trim s) @ more"
    "more = [] \<or> length (bs ! i) \<le> chunkSize + 2"
    unfolding built_def by blast
  show "length (chunkText text chunkSize overlap ! i) \<le> chunkSize + 2 \<or>
      (\<exists>s\<in>set (sentencesOf text).
         pushedBuffers text chunkSize overlap ! i =
           (if i = 0 then trim s
            else join [space] (overlapWords overlap (pushedBuffers text chunkSize overlap ! (i - 1))) @
                 [space] @ trim s) \<and>
         length (chunkText text chunkSize overlap ! i) \<le>
           (if i = 0 then 0 else length (pushedBuffers text chunkSize overlap ! (i - 1)) + 1) +
           length (trim s))"
  proof (cases "more = []")
    case False
    then have "length (trim (bs ! i)) \<le> chunkSize + 2"
      using s(3) length_trim_le [of "bs ! i"] by simp
    then show ?thesis using c by simp
  next
    case True
    then have shape: "bs ! i =
        (if i = 0 then trim s
         else join [space] (overlapWords overlap (bs ! (i - 1))) @ [space] @ trim s)"
      using s(2) by (simp add: segmentStart_def previous_def)
    have "length (bs ! i) \<le> (if i = 0 then 0 else length (bs ! (i - 1)) + 1) + length (trim s)"
      using length_carried [of overlap "bs ! (i - 1)"] by (subst shape) simp
    with length_trim_le [of "bs ! i"] have "length (trim (bs ! i)) \<le>
        (if i = 0 then 0 else length (bs ! (i - 1)) + 1) + length (trim s)"
      by (rule order_trans)
    then have len: "length (chunkText text chunkSize overlap ! i) \<le>
        (if i = 0 then 0 else length (bs ! (i - 1)) + 1) + length (trim s)"
      by (simp only: c)
    have "\<exists>s\<in>set (sentencesOf text).
         bs ! i =
           (if i = 0 then trim s
            else join [space] (overlapWords overlap (bs ! (i - 1))) @ [space] @ trim s) \<and>
         length (chunkText text chunkSize overlap ! i) \<le>
           (if i = 0 then 0 else length (bs ! (i - 1)) + 1) + length (trim s)"
      using s(1) shape len by blast
    then show ?thesis
      unfolding bs_def by (rule disjI2)
  qed
qed

theorem chunkText_chunk_length_witness:
  "Suc 0 < length (pushedBuffers (lit ''aaaa bbbb. cccc dddd'') 5 10) \<and>
   chunkText (lit ''aaaa bbbb. cccc dddd'') 5 10 = [lit ''aaaa bbbb'', lit ''aaaa bbbb cccc dddd''] \<and>
   \<not> length (chunkText (lit ''aaaa bbbb. cccc dddd'') 5 10 ! Suc 0) \<le> 5 + 2 \<and>
   (\<exists>s\<in>set (sentencesOf (lit ''aaaa bbbb. cccc dddd'')).
      pushedBuffers (lit ''aaaa bbbb. cccc dddd'') 5 10 ! Suc 0 =
        join [space] (overlapWords 10 (pushedBuffers (lit ''aaaa bbbb. cccc dddd'') 5 10 ! 0)) @
        [space] @ trim s \<and>
      length (chunkText (lit ''aaaa bbbb. cccc dddd'') 5 10 ! Suc 0) \<le>
        length (pushedBuffers (lit ''aaaa bbbb. cccc dddd'') 5 10 ! 0) + 1 + length (trim s))"
proof -
  have len: "Suc 0 < length (pushedBuffers (lit ''aaaa bbbb. cccc dddd'') 5 10)"
    by code_simp
  have chunks: "chunkText (lit ''aaaa bbbb. cccc dddd'') 5 10 =
      [lit ''aaaa bbbb'', lit ''aaaa bbbb cccc dddd'']"
    by code_simp
  have long: "\<not> length (chunkText (lit ''aaaa bbbb. cccc dddd'') 5 10 ! Suc 0) \<le> 5 + 2"
    unfolding chunks by (simp add: lit_def)
  from chunkText_chunk_length [of "lit ''aaaa bbbb. cccc dddd''" 5 10] len long
  have "\<exists>s\<in>set (sentencesOf (lit ''aaaa bbbb. cccc dddd'')).
      pushedBuffers (lit ''aaaa bbbb. cccc dddd'') 5 10 ! Suc 0 =
        (if Suc 0 = 0 then trim s
         else join [space] (overlapWords 10 (pushedBuffers (lit ''aaaa bbbb. cccc dddd'') 5 10 ! (Suc 0 - 1))) @
              [space] @ trim s) \<and>
      length (chunkText (lit ''aaaa bbbb. cccc dddd'') 5 10 ! Suc 0) \<le>
        (if Suc 0 = 0 then 0
         else length (pushedBuffers (lit ''aaaa bbbb. cccc dddd'') 5 10 ! (Suc 0 - 1)) + 1) +
        length (trim s)"
    by blast
  then have "\<exists>s\<in>set (sentencesOf (lit ''aaaa bbbb. cccc dddd'')).
      pushedBuffers (lit ''aaaa bbbb. cccc dddd'') 5 10 ! Suc 0 =
        join [space] (overlapWords 10 (pushedBuffers (lit ''aaaa bbbb. cccc dddd'') 5 10 ! 0)) @
        [space] @ trim s \<and>
      length (chunkText (lit ''aaaa bbbb. cccc dddd'') 5 10 ! Suc 0) \<le>
        length (pushedBuffers (lit ''aaaa bbbb. cccc dddd'') 5 10 ! 0) + 1 + length (trim s)"
    by simp
  with len chunks long show ?thesis
    by (intro conjI)
qed

section \<open>Chunker: the overlap\<close>

text \<open>
  C8, as stated: each chunk produced after a split begins with the last
  \<open>floor(overlap / 5)\<close> words of the previous chunk. It fails where the carried words
  start with an empty piece (two adjacent spaces in the previous buffer): with
  \<open>overlap = 10\<close> the last two pieces of \<open>"a  b"\<close> are \<open>""\<close> and \<open>"b"\<close>, the next buffer
  is \<open>" b cc"\<close>, and the chunk pushed is its trimmed form \<open>"b cc"\<close>, which begins with one
  word of the previous chunk and not with the joined pieces \<open>" b"\<close>.
\<close>

theorem chunkText_overlap_not_prefix:
  "chunkText (lit ''a  b.cc.dd'') 5 10 = [lit ''a  b'', lit ''b cc'', lit ''b cc dd''] \<and>
   overlapWords 10 (lit ''a  b'') = [[], lit ''b''] \<and>
   \<not> prefix (join [space] (overlapWords 10 (lit ''a  b''))) (lit ''b cc'')"
  by code_simp

text \<open>
  C8, amended, for an overlap of at least 5, so that \<open>floor(overlap / 5)\<close> is at least 1:
  every chunk is its buffer without the leading white space, and every buffer after the
  first consists of a text carried over from the previous buffer, a space, the next
  trimmed sentence and what is appended later. The carried text is the end of the
  previous buffer that follows its \<open>floor(overlap / 5)\<close>-th space counted from the end
  (its last \<open>floor(overlap / 5)\<close> space-separated pieces, empty pieces included), or the
  whole previous buffer when it has fewer spaces.
\<close>

theorem chunkText_overlap_buffers:
  assumes "5 \<le> overlap"
  shows "chunkText text chunkSize overlap =
           map (dropWhile isWhiteSpace) (pushedBuffers text chunkSize overlap) \<and>
    (\<forall>i. Suc i < length (pushedBuffers text chunkSize overlap) \<longrightarrow>
       (\<exists>carriedText s more.
          s \<in> set (sentencesOf text) \<and>
          pushedBuffers text chunkSize overlap ! Suc i = carriedText @ [space] @ trim s @ more \<and>
          (if count_list (pushedBuffers text chunkSize overlap ! i) space < overlap div 5
           then carriedText = pushedBuffers text chunkSize overlap ! i
           else suffix (space # carriedText) (pushedBuffers text chunkSize overlap ! i) \<and>
                count_list carriedText space = overlap div 5 - 1)))"
proof (intro conjI allI impI)
  show "chunkText text chunkSize overlap =
      map (dropWhile isWhiteSpace) (pushedBuffers text chunkSize overlap)"
    by (rule chunkText_dropWhile)
  fix i
  assume i: "Suc i < length (pushedBuffers text chunkSize overlap)"
  define bs where "bs = pushedBuffers text chunkSize overlap"
  have "built (set (sentencesOf text)) chunkSize overlap (Some (bs ! i)) (bs ! Suc i)"
    using pushedBuffers_built [OF i] by (simp add: bs_def)
  then obtain s more where s: "s \<in> set (sentencesOf text)"
    "bs ! Suc i = segmentStart overlap (Some (bs ! i)) (trim s) @ more"
    unfolding built_def by blast
  define carriedText where "carriedText = join [space] (overlapWords overlap (bs ! i))"
  have "bs ! Suc i = carriedText @ [space] @ trim s @ more"
    using s(2) by (simp add: segmentStart_def carriedText_def)
  moreover have "if count_list (bs ! i) space < overlap div 5 then carriedText = bs ! i
      else suffix (space # carriedText) (bs ! i) \<and> count_list carriedText space = overlap div 5 - 1"
    unfolding carriedText_def by (rule carried_text [OF assms])
  ultimately have "s \<in> set (sentencesOf text) \<and>
          bs ! Suc i = carriedText @ [space] @ trim s @ more \<and>
          (if count_list (bs ! i) space < overlap div 5
           then carriedText = bs ! i
           else suffix (space # carriedText) (bs ! i) \<and>
                count_list carriedText space = overlap div 5 - 1)"
    using s(1) by (intro conjI)
  then show "\<exists>carriedText s more.
          s \<in> set (sentencesOf text) \<and>
          pushedBuffers text chunkSize overlap ! Suc i = carriedText @ [space] @ trim s @ more \<and>
          (if count_list (pushedBuffers text chunkSize overlap ! i) space < overlap div 5
           then carriedText = pushedBuffers text chunkSize overlap ! i
           else suffix (space # carriedText) (pushedBuffers text chunkSize overlap ! i) \<and>
                count_list carriedText space = overlap div 5 - 1)"
    unfolding bs_def by (intro exI)
qed

theorem chunkText_overlap_buffers_witness:
  "5 \<le> (10 :: nat) \<and>
   pushedBuffers (lit ''aa bb cc.dd.ee'') 8 10 = [lit ''aa bb cc'', lit ''bb cc dd'', lit ''cc dd ee''] \<and>
   chunkText (lit ''aa bb cc.dd.ee'') 8 10 =
     map (dropWhile isWhiteSpace) (pushedBuffers (lit ''aa bb cc.dd.ee'') 8 10) \<and>
   (\<exists>carriedText s more.
      s \<in> set (sentencesOf (lit ''aa bb cc.dd.ee'')) \<and>
      lit ''bb cc dd'' = carriedText @ [space] @ trim s @ more \<and>
      suffix (space # carriedText) (lit ''aa bb cc'') \<and>
      count_list carriedText space = 1)"
proof -
  have five: "5 \<le> (10 :: nat)"
    by simp
  have buffers: "pushedBuffers (lit ''aa bb cc.dd.ee'') 8 10 =
      [lit ''aa bb cc'', lit ''bb cc dd'', lit ''cc dd ee'']"
    by code_simp
  have spaces: "\<not> count_list (lit ''aa bb cc'') space < 2"
    by code_simp
  note t = chunkText_overlap_buffers [OF five, of "lit ''aa bb cc.dd.ee''" 8]
  from t have eq: "chunkText (lit ''aa bb cc.dd.ee'') 8 10 =
     map (dropWhile isWhiteSpace) (pushedBuffers (lit ''aa bb cc.dd.ee'') 8 10)"
    by (rule conjunct1)
  from t have "Suc 0 < length (pushedBuffers (lit ''aa bb cc.dd.ee'') 8 10) \<longrightarrow>
     (\<exists>carriedText s more.
        s \<in> set (sentencesOf (lit ''aa bb cc.dd.ee'')) \<and>
        pushedBuffers (lit ''aa bb cc.dd.ee'') 8 10 ! Suc 0 = carriedText @ [space] @ trim s @ more \<and>
        (if count_list (pushedBuffers (lit ''aa bb cc.dd.ee'') 8 10 ! 0) space < 10 div 5
         then carriedText = pushedBuffers (lit ''aa bb cc.dd.ee'') 8 10 ! 0
         else suffix (space # carriedText) (pushedBuffers (lit ''aa bb cc.dd.ee'') 8 10 ! 0) \<and>
              count_list carriedText space = 10 div 5 - 1))"
    by blast
  then have "\<exists>carriedText s more.
      s \<in> set (sentencesOf (lit ''aa bb cc.dd.ee'')) \<and>
      lit ''bb cc dd'' = carriedText @ [space] @ trim s @ more \<and>
      suffix (space # carriedText) (lit ''aa bb cc'') \<and>
      count_list carriedText space = 1"
    using spaces by (simp add: buffers)
  with five buffers eq show ?thesis
    by (intro conjI)
qed

section \<open>Cosine similarity: the result\<close>

lemma cosineLoop_foldl:
  assumes "length a = length b"
  shows "cosineLoop a b i (d, na, nb) =
     (foldl jsadd d (map (\<lambda>(x, y). jsmul x y) (zip (drop i a) (drop i b))),
      foldl jsadd na (map (\<lambda>(x, y). jsmul x y) (zip (drop i a) (drop i a))),
      foldl jsadd nb (map (\<lambda>(x, y). jsmul x y) (zip (drop i b) (drop i b))))"
  using assms
proof (induction a b i "(d, na, nb)" arbitrary: d na nb rule: cosineLoop.induct)
  case (1 a b i d na nb)
  show ?case
  proof (cases "i < length a")
    case True
    then have da: "drop i a = a ! i # drop (Suc i) a" and db: "drop i b = b ! i # drop (Suc i) b"
      using "1.prems" by (simp_all add: Cons_nth_drop_Suc)
    have at: "numAt a i = a ! i" "numAt b i = b ! i"
      using True "1.prems" by (simp_all add: numAt_def)
    show ?thesis
      using True "1.hyps" [OF True "1.prems"]
      by (subst cosineLoop.simps) (simp add: da db at)
  next
    case False
    then show ?thesis
      using "1.prems" by (subst cosineLoop.simps) simp
  qed
qed

lemma cosineSimilarity_formula:
  "length a = length b \<Longrightarrow> cosineSimilarity a b = jsdiv (dot a b) (jsmul (norm2 a) (norm2 b))"
  by (simp add: cosineSimilarity_def cosineLoop_foldl dot_def norm2_def)

lemma zeroOrNaN_mul_left: "zeroOrNaN (jsmul (Fin 0) y)"
  by (cases y) (simp_all add: zeroOrNaN_def)

lemma zeroOrNaN_mul_right: "zeroOrNaN (jsmul x (Fin 0))"
  by (cases x) (simp_all add: zeroOrNaN_def)

lemma zeroOrNaN_add: "zeroOrNaN x \<Longrightarrow> zeroOrNaN y \<Longrightarrow> zeroOrNaN (jsadd x y)"
  by (auto simp: zeroOrNaN_def)

lemma zeroOrNaN_div: "zeroOrNaN x \<Longrightarrow> zeroOrNaN y \<Longrightarrow> jsdiv x y = NaN"
  by (auto simp: zeroOrNaN_def)

lemma foldl_zeroOrNaN:
  "zeroOrNaN acc \<Longrightarrow> \<forall>x\<in>set xs. zeroOrNaN x \<Longrightarrow> zeroOrNaN (foldl jsadd acc xs)"
  by (induction xs arbitrary: acc) (simp_all add: zeroOrNaN_add)

lemma foldl_zero:
  "\<forall>x\<in>set xs. x = Fin 0 \<Longrightarrow> foldl jsadd (Fin 0) xs = Fin 0"
  by (induction xs) simp_all

lemma dot_zero_left:
  assumes "\<forall>x\<in>set a. x = Fin 0"
  shows "zeroOrNaN (dot a b)"
  unfolding dot_def
proof (rule foldl_zeroOrNaN)
  show "zeroOrNaN (Fin 0)" by (simp add: zeroOrNaN_def)
  show "\<forall>p\<in>set (map (\<lambda>(x, y). jsmul x y) (zip a b)). zeroOrNaN p"
  proof
    fix p assume "p \<in> set (map (\<lambda>(x, y). jsmul x y) (zip a b))"
    then obtain x y where xy: "(x, y) \<in> set (zip a b)" and p: "p = jsmul x y" by auto
    from xy have "x \<in> set a" by (rule set_zip_leftD)
    with assms have "x = Fin 0" by blast
    then show "zeroOrNaN p" using p zeroOrNaN_mul_left by simp
  qed
qed

lemma dot_zero_right:
  assumes "\<forall>x\<in>set b. x = Fin 0"
  shows "zeroOrNaN (dot a b)"
  unfolding dot_def
proof (rule foldl_zeroOrNaN)
  show "zeroOrNaN (Fin 0)" by (simp add: zeroOrNaN_def)
  show "\<forall>p\<in>set (map (\<lambda>(x, y). jsmul x y) (zip a b)). zeroOrNaN p"
  proof
    fix p assume "p \<in> set (map (\<lambda>(x, y). jsmul x y) (zip a b))"
    then obtain x y where xy: "(x, y) \<in> set (zip a b)" and p: "p = jsmul x y" by auto
    from xy have "y \<in> set b" by (rule set_zip_rightD)
    with assms have "y = Fin 0" by blast
    then show "zeroOrNaN p" using p zeroOrNaN_mul_right by simp
  qed
qed

lemma norm2_zero:
  assumes "\<forall>x\<in>set a. x = Fin 0"
  shows "norm2 a = Fin 0"
proof -
  have "\<forall>p\<in>set (map (\<lambda>(x, y). jsmul x y) (zip a a)). p = Fin 0"
  proof
    fix p assume "p \<in> set (map (\<lambda>(x, y). jsmul x y) (zip a a))"
    then obtain x y where xy: "(x, y) \<in> set (zip a a)" and p: "p = jsmul x y" by auto
    from xy have "x \<in> set a" "y \<in> set a" by (auto dest: set_zip_leftD set_zip_rightD)
    with assms have "x = Fin 0" "y = Fin 0" by blast+
    then show "p = Fin 0" using p by simp
  qed
  then have "foldl jsadd (Fin 0) (map (\<lambda>(x, y). jsmul x y) (zip a a)) = Fin 0"
    by (rule foldl_zero)
  then show ?thesis
    by (simp add: norm2_def dot_def)
qed

text \<open>
  C9: for vectors of unequal length \<open>cosineSimilarity\<close> returns 0 (the loop, and with it
  every indexed read, is not reached); for vectors of equal length it returns the dot
  product divided by the product of the Euclidean norms, every read being in range; and
  the quotient is \<open>NaN\<close> when either vector is all zeros.
\<close>

theorem cosineSimilarity_cases:
  "(length a \<noteq> length b \<longrightarrow> cosineSimilarity a b = Fin 0) \<and>
   (length a = length b \<longrightarrow>
      cosineSimilarity a b = jsdiv (dot a b) (jsmul (norm2 a) (norm2 b))) \<and>
   (length a = length b \<and> ((\<forall>x\<in>set a. x = Fin 0) \<or> (\<forall>x\<in>set b. x = Fin 0)) \<longrightarrow>
      cosineSimilarity a b = NaN)"
proof (intro conjI impI)
  assume "length a \<noteq> length b"
  then show "cosineSimilarity a b = Fin 0"
    by (simp add: cosineSimilarity_def)
next
  assume "length a = length b"
  then show "cosineSimilarity a b = jsdiv (dot a b) (jsmul (norm2 a) (norm2 b))"
    by (rule cosineSimilarity_formula)
next
  assume h: "length a = length b \<and> ((\<forall>x\<in>set a. x = Fin 0) \<or> (\<forall>x\<in>set b. x = Fin 0))"
  then have eq: "cosineSimilarity a b = jsdiv (dot a b) (jsmul (norm2 a) (norm2 b))"
    by (simp add: cosineSimilarity_formula)
  from h have "zeroOrNaN (dot a b) \<and> zeroOrNaN (jsmul (norm2 a) (norm2 b))"
  proof (elim conjE disjE)
    assume z: "\<forall>x\<in>set a. x = Fin 0"
    show ?thesis
      using dot_zero_left [OF z] norm2_zero [OF z] zeroOrNaN_mul_left by simp
  next
    assume z: "\<forall>x\<in>set b. x = Fin 0"
    show ?thesis
      using dot_zero_right [OF z] norm2_zero [OF z] zeroOrNaN_mul_right by simp
  qed
  then show "cosineSimilarity a b = NaN"
    using eq zeroOrNaN_div by simp
qed

theorem cosineSimilarity_cases_witness:
  "cosineSimilarity [Fin 1, Fin 2] [Fin 1] = Fin 0 \<and>
   cosineSimilarity [Fin 1, Fin 0] [Fin 1, Fin 0] =
     jsdiv (dot [Fin 1, Fin 0] [Fin 1, Fin 0]) (jsmul (norm2 [Fin 1, Fin 0]) (norm2 [Fin 1, Fin 0])) \<and>
   cosineSimilarity [Fin 1, Fin 0] [Fin 1, Fin 0] = Fin 1 \<and>
   cosineSimilarity [Fin 0, Fin 0] [Fin 1, Fin 2] = NaN"
  using cosineSimilarity_cases [of "[Fin 1, Fin 2]" "[Fin 1]"]
    cosineSimilarity_cases [of "[Fin 1, Fin 0]" "[Fin 1, Fin 0]"]
    cosineSimilarity_cases [of "[Fin 0, Fin 0]" "[Fin 1, Fin 2]"]
  by (simp add: dot_def norm2_def)

section \<open>Similarity ranker: failures and the zero vector\<close>

lemma cosineSimilarity_samples: "cosineSimilarity [Fin 1] [Fin (- 1)] = Fin (- 1)"
  "cosineSimilarity [Fin 1] [Fin 0] = NaN"
  "cosineSimilarity [Fin 1] [Fin 1] = Fin 1"
  by (simp_all add: cosineSimilarity_def cosineLoop.simps numAt_def)

text \<open>
  C3, at a store whose second chunk carries the zero vector as its embedding.
  \<open>cosineSimilarity\<close> has no guard for a zero norm and gives \<open>NaN\<close> for that chunk; the
  comparison function then returns \<open>NaN\<close> for every pair with it, which the sort reads
  as "equal", so the three chunks stay in stored order: similarities -1, \<open>NaN\<close>, 1. The
  result is not in non-increasing score order, and with \<open>topK = 1\<close> the chunk returned
  is the one opposite to the query, while a chunk of similarity 1 is stored.
\<close>

theorem threeVectors_similarities:
  "map_sum id similarities
     (fst (searchDocuments (sampleEnv offline (HttpOk [Fin 1])) (lit ''q'') 3 threeVectors)) =
     Inr [Some (Fin (- 1)), Some NaN, Some (Fin 1)] \<and>
   map_sum id similarities
     (fst (searchDocuments (sampleEnv offline (HttpOk [Fin 1])) (lit ''q'') 1 threeVectors)) =
     Inr [Some (Fin (- 1))] \<and>
   \<not> jsge (Fin (- 1)) NaN \<and> \<not> jsge NaN (Fin 1) \<and> \<not> jsge (Fin (- 1)) (Fin 1)"
  by (simp add: searchDocuments_def searchDocumentsBody_def getAllDocuments_def threeVectors_def
      sampleState_def sampleDocument_def sampleChunk_def hasEmbeddings_def generateEmbedding_def
      sampleEnv_def jsSort_def cosineSimilarity_samples byScore_def jssub_def similarities_def withSimilarity_def plainChunk_def)

text \<open>
  C10: \<open>searchDocuments\<close> never throws. It always returns a list and the state it
  was given; whenever its \<open>try\<close> block throws, and in particular whenever chunks with
  embeddings are stored and the query-embedding request does not give a body, the list
  is empty.
\<close>

theorem searchDocuments_never_throws:
  "(\<exists>found. fst (searchDocuments env query topK s) = Inr found) \<and>
   snd (searchDocuments env query topK s) = s \<and>
   (\<forall>e. searchDocumentsBody env query topK s = Inl e \<longrightarrow>
        searchDocuments env query topK s = (Inr [], s)) \<and>
   (hasEmbeddings (getAllDocuments s) \<and> (\<forall>v. embeddingsEndpoint env 0 query \<noteq> HttpOk v) \<longrightarrow>
        searchDocuments env query topK s = (Inr [], s))"
proof (intro conjI allI impI)
  show "\<exists>found. fst (searchDocuments env query topK s) = Inr found"
    by (cases "searchDocumentsBody env query topK s") (simp_all add: searchDocuments_def)
  show "snd (searchDocuments env query topK s) = s"
    by (cases "searchDocumentsBody env query topK s") (simp_all add: searchDocuments_def)
next
  fix e assume "searchDocumentsBody env query topK s = Inl e"
  then show "searchDocuments env query topK s = (Inr [], s)"
    by (simp add: searchDocuments_def)
next
  assume h: "hasEmbeddings (getAllDocuments s) \<and> (\<forall>v. embeddingsEndpoint env 0 query \<noteq> HttpOk v)"
  then have "\<exists>e. generateEmbedding (embeddingsEndpoint env 0) query = Inl e"
    by (cases "embeddingsEndpoint env 0 query") (simp_all add: generateEmbedding_def)
  then obtain e where "generateEmbedding (embeddingsEndpoint env 0) query = Inl e" ..
  with h have "searchDocumentsBody env query topK s = Inl e"
    by (simp add: searchDocumentsBody_def)
  then show "searchDocuments env query topK s = (Inr [], s)"
    by (simp add: searchDocuments_def)
qed

theorem searchDocuments_never_throws_witness:
  "hasEmbeddings (getAllDocuments threeVectors) \<and>
   searchDocuments (sampleEnv offline offline) (lit ''q'') 5 threeVectors = (Inr [], threeVectors)"
proof -
  have h: "hasEmbeddings (getAllDocuments threeVectors)"
    by (simp add: getAllDocuments_def threeVectors_def sampleState_def sampleDocument_def
        sampleChunk_def hasEmbeddings_def jsSort_def)
  have r: "\<forall>v. embeddingsEndpoint (sampleEnv offline offline) 0 (lit ''q'') \<noteq> HttpOk v"
    by (simp add: sampleEnv_def offline_def)
  from h r searchDocuments_never_throws [of "sampleEnv offline offline" "lit ''q''" 5 threeVectors]
  show ?thesis by blast
qed

section \<open>Context assembler: size and layout\<close>

lemma length_truncationNotice: "length truncationNotice = 53"
  by (simp add: truncationNotice_def lit_def)

lemma length_truncatedMarker: "length truncatedMarker = 21"
  by (simp add: truncatedMarker_def lit_def)

lemma length_fileHeader: "length (fileHeader doc) = 49 + length (doc_name doc)"
  by (simp add: fileHeader_def lit_def)

lemma length_fullHeader: "length fullHeader = 175"
  by (simp add: fullHeader_def doubleBar_def lit_def)

lemma fullDocLoop_bound:
  "int (length (fst (fullDocLoop docs (ctx, totalLength)))) \<le>
     max totalLength maxTotalLength + (int (length ctx) - totalLength) +
     int (sum_list (map (\<lambda>d. 50 + length (doc_name d)) docs)) + 53 \<and>
   snd (fullDocLoop docs (ctx, totalLength)) \<le> max totalLength maxTotalLength"
proof (induction docs arbitrary: ctx totalLength)
  case Nil
  show ?case by simp
next
  case (Cons doc rest)
  define remaining where "remaining = maxTotalLength - totalLength"
  define over where "over = int (sum_list (map (\<lambda>d. 50 + length (doc_name d)) rest))"
  have sum: "int (sum_list (map (\<lambda>d. 50 + length (doc_name d)) (doc # rest))) =
      50 + int (length (doc_name doc)) + over"
    by (simp add: over_def)
  have over: "0 \<le> over"
    by (simp add: over_def)
  show ?case
  proof (cases "remaining < 1000")
    case True
    then have step: "fullDocLoop (doc # rest) (ctx, totalLength) = (ctx @ truncationNotice, totalLength)"
      by (simp add: remaining_def)
    have "int (length (ctx @ truncationNotice)) = int (length ctx) + 53"
      by (simp add: length_truncationNotice)
    then show ?thesis
      unfolding step sum fst_conv snd_conv using over by arith
  next
    case False
    note big = this
    show ?thesis
    proof (cases "int (length (doc_content doc)) \<le> remaining")
      case True
      define c where "c = ctx @ fileHeader doc @ doc_content doc @ lit ''\<newline>''"
      define t where "t = totalLength + int (length (doc_content doc))"
      have step: "fullDocLoop (doc # rest) (ctx, totalLength) = fullDocLoop rest (c, t)"
        using big True by (simp add: remaining_def c_def t_def)
      have t: "t \<le> maxTotalLength"
        using True by (simp add: t_def remaining_def)
      have len: "int (length c) - t = int (length ctx) - totalLength + 50 + int (length (doc_name doc))"
        by (simp add: c_def t_def length_fileHeader lit_def)
      from Cons.IH [of c t] t len show ?thesis
        unfolding step sum over_def [symmetric] by arith
    next
      case False
      define c where
        "c = ctx @ fileHeader doc @ take (nat (remaining - 100)) (doc_content doc) @ truncatedMarker"
      have step: "fullDocLoop (doc # rest) (ctx, totalLength) = fullDocLoop rest (c, maxTotalLength)"
        using big False by (simp add: remaining_def c_def)
      have "length (take (nat (remaining - 100)) (doc_content doc)) = nat (remaining - 100)"
        using big False by simp
      then have "int (length c) =
          int (length ctx) + 49 + int (length (doc_name doc)) + (remaining - 100) + 21"
        using big by (simp add: c_def length_fileHeader length_truncatedMarker)
      then have len: "int (length c) - maxTotalLength =
          int (length ctx) - totalLength + int (length (doc_name doc)) - 30"
        by (simp add: remaining_def)
      from Cons.IH [of c maxTotalLength] len show ?thesis
        unfolding step sum over_def [symmetric] by arith
    qed
  qed
qed

lemma accumulatedContext_le:
  "int (length (accumulatedContext relevantChunks allDocs)) \<le>
     max (int (length (relevantSections relevantChunks @ fullHeader))) maxTotalLength +
     int (sum_list (map (\<lambda>d. 50 + length (doc_name d)) allDocs)) + 53"
  using fullDocLoop_bound [of allDocs "relevantSections relevantChunks @ fullHeader"
      "int (length (relevantSections relevantChunks @ fullHeader))"]
  by (simp add: accumulatedContext_def Let_def)

lemma length_accumulatedContext_big: "length (accumulatedContext [] [bigDocument]) = 300030"
  by (simp add: accumulatedContext_def relevantSections_def length_fullHeader maxTotalLength_def
      bigDocument_def sampleDocument_def length_fileHeader lit_def)

lemma searchDocuments_returns:
  "\<exists>found. searchDocuments env query topK s = (Inr found, s)"
  by (cases "searchDocumentsBody env query topK s") (simp_all add: searchDocuments_def)

lemma length_insertBy: "length (insertBy comparefn x ys) = Suc (length ys)"
  by (induction ys) simp_all

lemma length_jsSort: "length (jsSort comparefn xs) = length xs"
  by (induction xs) (simp_all add: jsSort_def length_insertBy)

lemma getAllDocuments_Nil: "getAllDocuments s = [] \<longleftrightarrow> documentsStore s = []"
  using length_jsSort [of "\<lambda>a b. jssub (doc_uploadedAt b) (doc_uploadedAt a)" "map snd (documentsStore s)"]
  by (simp add: getAllDocuments_def del: length_0_conv flip: length_0_conv)

lemma buildRAGContext_shape:
  assumes "documentsStore s \<noteq> []"
  shows "\<exists>relevantChunks. searchDocuments env query topK s = (Inr relevantChunks, s) \<and>
           buildRAGContext env query topK s =
             (Inr (finalContext (accumulatedContext relevantChunks (getAllDocuments s)) query), s)"
proof -
  obtain found where f: "searchDocuments env query topK s = (Inr found, s)"
    using searchDocuments_returns by blast
  have "getAllDocuments s \<noteq> []"
    using assms by (simp add: getAllDocuments_Nil)
  then have "buildRAGContext env query topK s =
      (Inr (finalContext (accumulatedContext found (getAllDocuments s)) query), s)"
    by (simp add: buildRAGContext_def f)
  with f show ?thesis by blast
qed

lemma fullDocLoop_extends: "\<exists>added. fst (fullDocLoop docs (ctx, totalLength)) = ctx @ added"
proof (induction docs arbitrary: ctx totalLength)
  case Nil
  show ?case by simp
next
  case (Cons doc rest)
  obtain a where a: "fst (fullDocLoop rest
      (ctx @ fileHeader doc @ doc_content doc @ lit ''\<newline>'',
       totalLength + int (length (doc_content doc)))) =
      (ctx @ fileHeader doc @ doc_content doc @ lit ''\<newline>'') @ a"
    using Cons.IH by blast
  obtain b where b: "fst (fullDocLoop rest
      (ctx @ fileHeader doc @
       take (nat (maxTotalLength - totalLength - 100)) (doc_content doc) @ truncatedMarker,
       maxTotalLength)) =
      (ctx @ fileHeader doc @
       take (nat (maxTotalLength - totalLength - 100)) (doc_content doc) @ truncatedMarker) @ b"
    using Cons.IH by blast
  show ?case
    using a b by (simp add: Let_def)
qed

lemma accumulatedContext_extends:
  "\<exists>documentsText. accumulatedContext relevantChunks allDocs =
     relevantSections relevantChunks @ fullHeader @ documentsText"
  using fullDocLoop_extends [of allDocs "relevantSections relevantChunks @ fullHeader"
      "int (length (relevantSections relevantChunks @ fullHeader))"]
  by (simp add: accumulatedContext_def Let_def)

text \<open>
  C1, amended: the context returned for a non-empty store wraps the accumulated context.
  The loop over the documents meters the length of the context when the loop starts plus
  the document characters it copies, and this running total never exceeds 300000 once it
  is at or below it; the banner of each file (49 characters and the file name), the line
  break or the marker after its content and the truncation notice (53 characters) are
  added without being metered. So the accumulated context is at most the larger of
  300000 and its length when the loop starts, plus 50 and the length of the name for
  every stored document, plus 53.
\<close>

theorem buildRAGContext_size:
  "(documentsStore s \<noteq> [] \<longrightarrow>
      (\<exists>relevantChunks.
         buildRAGContext env query topK s =
           (Inr (finalContext (accumulatedContext relevantChunks (getAllDocuments s)) query), s))) \<and>
   snd (fullDocLoop allDocs (start, int (length start))) \<le> max (int (length start)) maxTotalLength \<and>
   int (length (accumulatedContext relevantChunks allDocs)) \<le>
     max (int (length (relevantSections relevantChunks @ fullHeader))) maxTotalLength +
     int (sum_list (map (\<lambda>d. 50 + length (doc_name d)) allDocs)) + 53"
proof (intro conjI impI)
  assume "documentsStore s \<noteq> []"
  then show "\<exists>relevantChunks.
         buildRAGContext env query topK s =
           (Inr (finalContext (accumulatedContext relevantChunks (getAllDocuments s)) query), s)"
    using buildRAGContext_shape by blast
next
  show "snd (fullDocLoop allDocs (start, int (length start))) \<le> max (int (length start)) maxTotalLength"
    using fullDocLoop_bound [of allDocs start "int (length start)"] by blast
next
  show "int (length (accumulatedContext relevantChunks allDocs)) \<le>
     max (int (length (relevantSections relevantChunks @ fullHeader))) maxTotalLength +
     int (sum_list (map (\<lambda>d. 50 + length (doc_name d)) allDocs)) + 53"
    by (rule accumulatedContext_le)
qed

lemma relevantLoop_sections:
  "relevantLoop chunks index ctx =
     ctx @ concat (map (\<lambda>(index, chunk). sectionOf index chunk) (enumerate index chunks))"
proof (induction chunks arbitrary: index ctx)
  case Nil
  show ?case by simp
next
  case (Cons chunk rest)
  show ?case
    by (simp add: Cons.IH sectionOf_def Let_def)
qed

lemma relevantSections_sections:
  "relevantSections relevantChunks =
     (if relevantChunks = [] then []
      else relevantHeader @
           concat (map (\<lambda>(index, chunk). sectionOf index chunk) (enumerate 0 relevantChunks)))"
  by (simp add: relevantSections_def relevantLoop_sections)

lemma fullDocLoop_whole:
  assumes "k \<le> length docs" and "\<forall>j<k. fits totalLength docs j"
  shows "fullDocLoop docs (ctx, totalLength) =
     fullDocLoop (drop k docs)
       (ctx @ concat (map wholeFile (take k docs)),
        totalLength + int (sum_list (map (\<lambda>doc. length (doc_content doc)) (take k docs))))"
  using assms
proof (induction docs arbitrary: k ctx totalLength)
  case Nil
  then show ?case by simp
next
  case (Cons doc rest)
  show ?case
  proof (cases k)
    case 0
    then show ?thesis by simp
  next
    case (Suc n)
    have "fits totalLength (doc # rest) 0"
      using Cons.prems(2) Suc by simp
    then have first: "\<not> maxTotalLength - totalLength < 1000"
      "int (length (doc_content doc)) \<le> maxTotalLength - totalLength"
      by (simp_all add: fits_def spaceBefore_def)
    have n: "n \<le> length rest"
      using Cons.prems(1) Suc by simp
    have later: "\<forall>j<n. fits (totalLength + int (length (doc_content doc))) rest j"
    proof (intro allI impI)
      fix j
      assume "j < n"
      then have "fits totalLength (doc # rest) (Suc j)"
        using Cons.prems(2) Suc by simp
      then show "fits (totalLength + int (length (doc_content doc))) rest j"
        by (simp add: fits_def spaceBefore_def)
    qed
    have "fullDocLoop (doc # rest) (ctx, totalLength) =
        fullDocLoop rest
          (ctx @ fileHeader doc @ doc_content doc @ lit ''\<newline>'',
           totalLength + int (length (doc_content doc)))"
      using first by (simp add: Let_def)
    also have "\<dots> =
        fullDocLoop (drop n rest)
          ((ctx @ fileHeader doc @ doc_content doc @ lit ''\<newline>'') @ concat (map wholeFile (take n rest)),
           (totalLength + int (length (doc_content doc))) +
           int (sum_list (map (\<lambda>doc. length (doc_content doc)) (take n rest))))"
      by (rule Cons.IH [OF n later])
    finally have run: "fullDocLoop (doc # rest) (ctx, totalLength) =
        fullDocLoop (drop n rest)
          ((ctx @ fileHeader doc @ doc_content doc @ lit ''\<newline>'') @ concat (map wholeFile (take n rest)),
           (totalLength + int (length (doc_content doc))) +
           int (sum_list (map (\<lambda>doc. length (doc_content doc)) (take n rest))))" .
    have t: "concat (map wholeFile (take k (doc # rest))) =
        (fileHeader doc @ doc_content doc @ lit ''\<newline>'') @ concat (map wholeFile (take n rest))"
      by (simp add: Suc wholeFile_def [of doc])
    have sm: "int (sum_list (map (\<lambda>doc. length (doc_content doc)) (take k (doc # rest)))) =
        int (length (doc_content doc)) +
        int (sum_list (map (\<lambda>doc. length (doc_content doc)) (take n rest)))"
      by (simp add: Suc)
    have dr: "drop k (doc # rest) = drop n rest"
      by (simp add: Suc)
    show ?thesis
      unfolding t sm dr run by (simp only: append_assoc add.assoc)
  qed
qed

lemma fullDocLoop_stops:
  assumes "maxTotalLength - totalLength < 1000"
  shows "fst (fullDocLoop docs (ctx, totalLength)) = ctx @ (if docs = [] then [] else truncationNotice)"
  using assms by (cases docs) (simp_all add: Let_def)

lemma fullDocLoop_cuts:
  assumes "\<not> maxTotalLength - totalLength < 1000"
    and "\<not> int (length (doc_content doc)) \<le> maxTotalLength - totalLength"
  shows "fst (fullDocLoop (doc # rest) (ctx, totalLength)) =
     ctx @ cutFile (maxTotalLength - totalLength) doc @ (if rest = [] then [] else truncationNotice)"
proof -
  have "fullDocLoop (doc # rest) (ctx, totalLength) =
      fullDocLoop rest (ctx @ cutFile (maxTotalLength - totalLength) doc, maxTotalLength)"
    using assms by (simp add: Let_def cutFile_def)
  moreover have "maxTotalLength - maxTotalLength < 1000"
    by simp
  ultimately show ?thesis
    using fullDocLoop_stops [of maxTotalLength rest] by simp
qed

lemma fullDocLoop_text:
  assumes "k \<le> length docs" and "\<forall>j<k. fits start docs j"
    and "k < length docs \<longrightarrow> \<not> fits start docs k"
  shows "fst (fullDocLoop docs (ctx, start)) =
     ctx @ concat (map wholeFile (take k docs)) @
     (if k = length docs then []
      else if spaceBefore start docs k < 1000 then truncationNotice
      else cutFile (spaceBefore start docs k) (docs ! k) @
           (if Suc k < length docs then truncationNotice else []))"
proof -
  define total where
    "total = start + int (sum_list (map (\<lambda>doc. length (doc_content doc)) (take k docs)))"
  have space: "maxTotalLength - total = spaceBefore start docs k"
    by (simp add: total_def spaceBefore_def)
  have loop: "fullDocLoop docs (ctx, start) =
      fullDocLoop (drop k docs) (ctx @ concat (map wholeFile (take k docs)), total)"
    unfolding total_def by (rule fullDocLoop_whole [OF assms(1,2)])
  show ?thesis
  proof (cases "k = length docs")
    case True
    then show ?thesis
      by (simp add: loop)
  next
    case False
    then have k: "k < length docs"
      using assms(1) by simp
    then have d: "drop k docs = docs ! k # drop (Suc k) docs"
      by (simp add: Cons_nth_drop_Suc)
    have rest: "drop (Suc k) docs = [] \<longleftrightarrow> \<not> Suc k < length docs"
      by auto
    show ?thesis
    proof (cases "spaceBefore start docs k < 1000")
      case True
      then have "fst (fullDocLoop (drop k docs) (ctx @ concat (map wholeFile (take k docs)), total)) =
          (ctx @ concat (map wholeFile (take k docs))) @ truncationNotice"
        using fullDocLoop_stops [of total "drop k docs"] space d by simp
      then show ?thesis
        using True False by (simp add: loop)
    next
      case enough: False
      then have long: "\<not> int (length (doc_content (docs ! k))) \<le> maxTotalLength - total"
        using assms(3) k space by (simp add: fits_def)
      have "fst (fullDocLoop (docs ! k # drop (Suc k) docs)
            (ctx @ concat (map wholeFile (take k docs)), total)) =
          (ctx @ concat (map wholeFile (take k docs))) @
          cutFile (maxTotalLength - total) (docs ! k) @
          (if drop (Suc k) docs = [] then [] else truncationNotice)"
        by (rule fullDocLoop_cuts) (use enough space long in simp_all)
      then show ?thesis
        using enough False
        by (simp add: loop d [symmetric] space rest del: drop_eq_Nil drop_eq_Nil2)
    qed
  qed
qed

text \<open>
  C6, amended: when no document is stored \<open>buildRAGContext\<close> returns the query
  unchanged. When at least one is stored, the context is, in this order: the fixed system
  preamble; when the search returns chunks, the banner of the relevant sections and one
  numbered section for each returned chunk, in ranking order, with the name of its
  document and its content; the banner of the full documents; the text of the stored
  documents; the question block, which is the user question between two rules followed
  by the fixed closing instruction. The text of the documents is, in the order of
  \<open>getAllDocuments\<close>, every document that fits the space left of the budget, copied whole
  under its file banner; the first document that does not fit is cut to the space left
  minus 100 characters and marked as truncated when at least 1000 characters are left,
  and a truncation notice stands for the documents that are not copied.
\<close>

theorem buildRAGContext_layout:
  "(documentsStore s = [] \<longrightarrow> buildRAGContext env query topK s = (Inr query, s)) \<and>
   (documentsStore s \<noteq> [] \<longrightarrow>
      (\<exists>relevantChunks relevantText documentsText.
         searchDocuments env query topK s = (Inr relevantChunks, s) \<and>
         relevantText =
           (if relevantChunks = [] then []
            else relevantHeader @
                 concat (map (\<lambda>(index, chunk). sectionOf index chunk) (enumerate 0 relevantChunks))) \<and>
         buildRAGContext env query topK s =
           (Inr (systemPrompt @ lit ''\<newline>\<newline>'' @
                 relevantText @ fullHeader @ documentsText @
                 lit ''\<newline>\<newline>'' @
                 doubleBar @ lit ''\<newline>USER QUESTION: '' @ query @ lit ''\<newline>'' @ doubleBar @
                 closingInstruction), s) \<and>
         (\<forall>k\<le>length (getAllDocuments s).
            (\<forall>j<k. fits (int (length (relevantText @ fullHeader))) (getAllDocuments s) j) \<and>
            (k < length (getAllDocuments s) \<longrightarrow>
               \<not> fits (int (length (relevantText @ fullHeader))) (getAllDocuments s) k) \<longrightarrow>
            documentsText =
              concat (map wholeFile (take k (getAllDocuments s))) @
              (if k = length (getAllDocuments s) then []
               else if spaceBefore (int (length (relevantText @ fullHeader))) (getAllDocuments s) k < 1000
                 then truncationNotice
               else cutFile (spaceBefore (int (length (relevantText @ fullHeader))) (getAllDocuments s) k)
                      (getAllDocuments s ! k) @
                    (if Suc k < length (getAllDocuments s) then truncationNotice else [])))))"
proof (intro conjI impI)
  assume "documentsStore s = []"
  then have "getAllDocuments s = []"
    by (simp add: getAllDocuments_Nil)
  then show "buildRAGContext env query topK s = (Inr query, s)"
    by (simp add: buildRAGContext_def)
next
  assume "documentsStore s \<noteq> []"
  then obtain relevantChunks where
    r: "searchDocuments env query topK s = (Inr relevantChunks, s)" and
    b: "buildRAGContext env query topK s =
         (Inr (finalContext (accumulatedContext relevantChunks (getAllDocuments s)) query), s)"
    using buildRAGContext_shape by blast
  define docs where "docs = getAllDocuments s"
  define relevantText where "relevantText = relevantSections relevantChunks"
  define start where "start = int (length (relevantText @ fullHeader))"
  obtain documentsText where
    d: "accumulatedContext relevantChunks docs = relevantText @ fullHeader @ documentsText"
    unfolding relevantText_def using accumulatedContext_extends by blast
  have loop: "fst (fullDocLoop docs (relevantText @ fullHeader, start)) =
      (relevantText @ fullHeader) @ documentsText"
    using d by (simp add: accumulatedContext_def Let_def relevantText_def start_def)
  have rt: "relevantText =
      (if relevantChunks = [] then []
       else relevantHeader @
            concat (map (\<lambda>(index, chunk). sectionOf index chunk) (enumerate 0 relevantChunks)))"
    unfolding relevantText_def by (rule relevantSections_sections)
  have ctx: "buildRAGContext env query topK s =
      (Inr (systemPrompt @ lit ''\<newline>\<newline>'' @
            relevantText @ fullHeader @ documentsText @
            lit ''\<newline>\<newline>'' @
            doubleBar @ lit ''\<newline>USER QUESTION: '' @ query @ lit ''\<newline>'' @ doubleBar @
            closingInstruction), s)"
    using b d by (simp add: finalContext_def questionBlock_def docs_def)
  have body: "\<forall>k\<le>length docs.
      (\<forall>j<k. fits start docs j) \<and> (k < length docs \<longrightarrow> \<not> fits start docs k) \<longrightarrow>
      documentsText =
        concat (map wholeFile (take k docs)) @
        (if k = length docs then []
         else if spaceBefore start docs k < 1000 then truncationNotice
         else cutFile (spaceBefore start docs k) (docs ! k) @
              (if Suc k < length docs then truncationNotice else []))"
  proof (intro allI impI)
    fix k
    assume k: "k \<le> length docs"
      and f: "(\<forall>j<k. fits start docs j) \<and> (k < length docs \<longrightarrow> \<not> fits start docs k)"
    have "fst (fullDocLoop docs (relevantText @ fullHeader, start)) =
       (relevantText @ fullHeader) @ concat (map wholeFile (take k docs)) @
       (if k = length docs then []
        else if spaceBefore start docs k < 1000 then truncationNotice
        else cutFile (spaceBefore start docs k) (docs ! k) @
             (if Suc k < length docs then truncationNotice else []))"
      by (rule fullDocLoop_text [OF k]) (use f in blast)+
    then show "documentsText =
        concat (map wholeFile (take k docs)) @
        (if k = length docs then []
         else if spaceBefore start docs k < 1000 then truncationNotice
         else cutFile (spaceBefore start docs k) (docs ! k) @
              (if Suc k < length docs then truncationNotice else []))"
      unfolding loop by (simp only: same_append_eq)
  qed
  from r rt ctx body show "\<exists>relevantChunks relevantText documentsText.
         searchDocuments env query topK s = (Inr relevantChunks, s) \<and>
         relevantText =
           (if relevantChunks = [] then []
            else relevantHeader @
                 concat (map (\<lambda>(index, chunk). sectionOf index chunk) (enumerate 0 relevantChunks))) \<and>
         buildRAGContext env query topK s =
           (Inr (systemPrompt @ lit ''\<newline>\<newline>'' @
                 relevantText @ fullHeader @ documentsText @
                 lit ''\<newline>\<newline>'' @
                 doubleBar @ lit ''\<newline>USER QUESTION: '' @ query @ lit ''\<newline>'' @ doubleBar @
                 closingInstruction), s) \<and>
         (\<forall>k\<le>length (getAllDocuments s).
            (\<forall>j<k. fits (int (length (relevantText @ fullHeader))) (getAllDocuments s) j) \<and>
            (k < length (getAllDocuments s) \<longrightarrow>
               \<not> fits (int (length (relevantText @ fullHeader))) (getAllDocuments s) k) \<longrightarrow>
            documentsText =
              concat (map wholeFile (take k (getAllDocuments s))) @
              (if k = length (getAllDocuments s) then []
               else if spaceBefore (int (length (relevantText @ fullHeader))) (getAllDocuments s) k < 1000
                 then truncationNotice
               else cutFile (spaceBefore (int (length (relevantText @ fullHeader))) (getAllDocuments s) k)
                      (getAllDocuments s ! k) @
                    (if Suc k < length (getAllDocuments s) then truncationNotice else [])))"
    unfolding start_def docs_def by (intro exI conjI)
qed

lemma expandQueryTerms_hi: "expandQueryTerms (sampleEnv tags embeddings) (lit ''hi'') = Inr []"
  by (simp add: expandQueryTerms_def sampleEnv_def lit_def asciiLower_def splitRuns.simps
      isWhiteSpace_def)

lemma keywordChunks_no_terms: "keywordChunks env [] docName chunks acc = acc"
  by (induction chunks arbitrary: acc) simp_all

lemma keywordDocuments_no_terms: "keywordDocuments env [] docs acc = acc"
  by (induction docs arbitrary: acc) (simp_all add: keywordChunks_no_terms)

lemma searchDocuments_hi:
  assumes "\<not> hasEmbeddings (getAllDocuments s)"
  shows "searchDocuments (sampleEnv tags embeddings) (lit ''hi'') topK s = (Inr [], s)"
  using assms
  by (simp add: searchDocuments_def searchDocumentsBody_def expandQueryTerms_hi
      keywordDocuments_no_terms jsSort_def)

lemma getAllDocuments_single: "getAllDocuments (sampleState [d]) = [d]"
  by (simp add: getAllDocuments_def sampleState_def jsSort_def)

lemma buildRAGContext_hi:
  assumes "\<forall>c\<in>set (doc_chunks d). chunk_embedding c = None"
  shows "buildRAGContext (sampleEnv tags embeddings) (lit ''hi'') topK (sampleState [d]) =
         (Inr (finalContext (accumulatedContext [] [d]) (lit ''hi'')), sampleState [d])"
proof -
  have "\<not> hasEmbeddings (getAllDocuments (sampleState [d]))"
    using assms by (simp add: getAllDocuments_single hasEmbeddings_def list_ex_iff)
  then show ?thesis
    by (simp add: buildRAGContext_def searchDocuments_hi getAllDocuments_single Let_def)
qed

lemma last_finalContext: "last (finalContext c q) = of_char CHR '':''"
proof -
  have "closingInstruction \<noteq> []" and "last closingInstruction = of_char CHR '':''"
    by (simp_all add: closingInstruction_def lit_def)
  then show ?thesis
    by (simp add: finalContext_def questionBlock_def)
qed

text \<open>
  C1, as stated: the accumulated context never exceeds 300000 characters. It fails for a
  store holding one document of 299800 characters: the content fits the remaining space
  (299825), so it is copied whole after a banner of 54 characters that is not metered,
  and the accumulated context is 300030 characters long; the context returned is longer
  still.
\<close>

theorem buildRAGContext_exceeds_budget:
  "buildRAGContext (sampleEnv offline offline) (lit ''hi'') 3 (sampleState [bigDocument]) =
     (Inr (finalContext (accumulatedContext [] [bigDocument]) (lit ''hi'')), sampleState [bigDocument]) \<and>
   length (doc_content bigDocument) = 299800 \<and>
   length (accumulatedContext [] [bigDocument]) = 300030 \<and>
   length (finalContext (accumulatedContext [] [bigDocument]) (lit ''hi'')) > 300000"
proof (intro conjI)
  show "buildRAGContext (sampleEnv offline offline) (lit ''hi'') 3 (sampleState [bigDocument]) =
     (Inr (finalContext (accumulatedContext [] [bigDocument]) (lit ''hi'')), sampleState [bigDocument])"
    by (rule buildRAGContext_hi) (simp add: bigDocument_def sampleDocument_def sampleChunk_def plainChunk_def)
  show "length (doc_content bigDocument) = 299800"
    by (simp add: bigDocument_def sampleDocument_def)
  show "length (accumulatedContext [] [bigDocument]) = 300030"
    by (rule length_accumulatedContext_big)
  then show "length (finalContext (accumulatedContext [] [bigDocument]) (lit ''hi'')) > 300000"
    by (simp add: finalContext_def)
qed

text \<open>
  C6, as stated: the context ends with the user question. It fails for every query:
  the question is followed by a line break, a rule and the closing instruction, 171
  characters that are not part of the question and whose last one is a colon. Here the
  query is \<open>"hi"\<close> and one document is stored.
\<close>

theorem buildRAGContext_question_not_last:
  "buildRAGContext (sampleEnv offline offline) (lit ''hi'') 3 (sampleState [smallDocument]) =
     (Inr (finalContext (accumulatedContext [] [smallDocument]) (lit ''hi'')), sampleState [smallDocument]) \<and>
   \<not> suffix (lit ''hi'') (finalContext (accumulatedContext [] [smallDocument]) (lit ''hi'')) \<and>
   suffix (lit ''hi'' @ lit ''\<newline>'' @ doubleBar @ closingInstruction)
     (finalContext (accumulatedContext [] [smallDocument]) (lit ''hi'')) \<and>
   length (lit ''\<newline>'' @ doubleBar @ closingInstruction) = 171"
proof (intro conjI)
  show "buildRAGContext (sampleEnv offline offline) (lit ''hi'') 3 (sampleState [smallDocument]) =
     (Inr (finalContext (accumulatedContext [] [smallDocument]) (lit ''hi'')), sampleState [smallDocument])"
    by (rule buildRAGContext_hi) (simp add: smallDocument_def sampleDocument_def sampleChunk_def plainChunk_def)
  show "\<not> suffix (lit ''hi'') (finalContext (accumulatedContext [] [smallDocument]) (lit ''hi''))"
  proof
    assume "suffix (lit ''hi'') (finalContext (accumulatedContext [] [smallDocument]) (lit ''hi''))"
    then obtain zs where "finalContext (accumulatedContext [] [smallDocument]) (lit ''hi'') = zs @ lit ''hi''"
      by (auto simp: suffix_def)
    then have "last (finalContext (accumulatedContext [] [smallDocument]) (lit ''hi'')) = last (lit ''hi'')"
      by (simp add: lit_def)
    then show False
      by (simp add: last_finalContext lit_def)
  qed
  have "finalContext (accumulatedContext [] [smallDocument]) (lit ''hi'') =
      (systemPrompt @ lit ''\<newline>\<newline>'' @ accumulatedContext [] [smallDocument] @ lit ''\<newline>\<newline>'' @
       doubleBar @ lit ''\<newline>USER QUESTION: '') @
      lit ''hi'' @ lit ''\<newline>'' @ doubleBar @ closingInstruction"
    by (simp add: finalContext_def questionBlock_def)
  then show "suffix (lit ''hi'' @ lit ''\<newline>'' @ doubleBar @ closingInstruction)
      (finalContext (accumulatedContext [] [smallDocument]) (lit ''hi''))"
    unfolding suffix_def by blast
  show "length (lit ''\<newline>'' @ doubleBar @ closingInstruction) = 171"
    by (simp add: doubleBar_def closingInstruction_def lit_def)
qed

theorem buildRAGContext_size_witness:
  "documentsStore (sampleState [bigDocument]) \<noteq> [] \<and>
   (\<exists>relevantChunks.
      buildRAGContext (sampleEnv offline offline) (lit ''hi'') 3 (sampleState [bigDocument]) =
        (Inr (finalContext
                (accumulatedContext relevantChunks (getAllDocuments (sampleState [bigDocument])))
                (lit ''hi'')), sampleState [bigDocument])) \<and>
   int (length (accumulatedContext [] [bigDocument])) \<le>
     max (int (length (relevantSections [] @ fullHeader))) maxTotalLength +
     int (sum_list (map (\<lambda>d. 50 + length (doc_name d)) [bigDocument])) + 53 \<and>
   max (int (length (relevantSections [] @ fullHeader))) maxTotalLength +
     int (sum_list (map (\<lambda>d. 50 + length (doc_name d)) [bigDocument])) + 53 = 300108"
proof -
  have n: "documentsStore (sampleState [bigDocument]) \<noteq> []"
    by (simp add: sampleState_def)
  have v: "max (int (length (relevantSections [] @ fullHeader))) maxTotalLength +
     int (sum_list (map (\<lambda>d. 50 + length (doc_name d)) [bigDocument])) + 53 = 300108"
    by (simp add: relevantSections_def length_fullHeader maxTotalLength_def bigDocument_def
        sampleDocument_def lit_def)
  from n v
    buildRAGContext_size [of "sampleState [bigDocument]" "sampleEnv offline offline" "lit ''hi''" 3
      "[bigDocument]" "[]" "[]"]
  show ?thesis by blast
qed

section \<open>File parsers: the OCR fallback of PDF files\<close>

lemma ocrLoop_done:
  assumes "\<not> pageNum \<le> min (length pages) 10"
  shows "ocrLoop pages pageNum (ocrText, calls) = (Inr ocrText, calls)"
  by (subst ocrLoop.simps) (simp only: if_not_P [OF assms])

lemma ocrLoop_step:
  assumes "pageNum \<le> min (length pages) 10"
  shows "ocrLoop pages pageNum (ocrText, calls) =
     (if \<not> page_canvasContext (pages ! (pageNum - 1)) then
        ocrLoop pages (pageNum + 1) (ocrText, calls @ [ocrPageCall (length pages) pageNum])
      else (case page_recognized (pages ! (pageNum - 1)) of
              Inl e \<Rightarrow> (Inl e, calls @ [ocrPageCall (length pages) pageNum])
            | Inr recognized \<Rightarrow>
                ocrLoop pages (pageNum + 1)
                  (ocrText @ recognized @ lit ''\<newline>\<newline>'',
                   calls @ [ocrPageCall (length pages) pageNum])))"
  by (subst ocrLoop.simps) (simp only: if_P [OF assms] Let_def)

lemma ocrLoop_take:
  assumes "1 \<le> pageNum"
  shows "ocrLoop pages pageNum (ocrText, calls) = ocrLoop (take 10 pages) pageNum (ocrText, calls)"
  using assms
proof (induction "Suc (min (length pages) 10) - pageNum" arbitrary: pageNum ocrText calls)
  case 0
  then have n: "\<not> pageNum \<le> min (length pages) 10"
    by arith
  then have "\<not> pageNum \<le> min (length (take 10 pages)) 10"
    by simp
  then have "ocrLoop (take 10 pages) pageNum (ocrText, calls) = (Inr ocrText, calls)"
    by (rule ocrLoop_done)
  moreover have "ocrLoop pages pageNum (ocrText, calls) = (Inr ocrText, calls)"
    using n by (rule ocrLoop_done)
  ultimately show ?case
    by simp
next
  case (Suc k)
  then have le: "pageNum \<le> min (length pages) 10"
    by arith
  then have le': "pageNum \<le> min (length (take 10 pages)) 10"
    by simp
  have "pageNum - 1 < 10"
    using le Suc.prems by arith
  then have idx: "take 10 pages ! (pageNum - 1) = pages ! (pageNum - 1)"
    by (rule nth_take)
  have len: "length (take 10 pages) = min (length pages) 10"
    by simp
  have call: "ocrPageCall (length (take 10 pages)) pageNum = ocrPageCall (length pages) pageNum"
    by (simp add: ocrPageCall_def)
  have k: "k = Suc (min (length pages) 10) - (pageNum + 1)"
    using Suc.hyps(2) by arith
  have IH: "ocrLoop pages (Suc pageNum) acc = ocrLoop (take 10 pages) (Suc pageNum) acc" for acc
    using Suc.hyps(1) [OF k, of "fst acc" "snd acc"] by simp
  show ?case
    unfolding ocrLoop_step [OF le] ocrLoop_step [OF le'] idx call
    by (simp add: IH split: sum.splits)
qed

lemma isPageCall_ocrPageCall: "isPageCall (ocrPageCall numPages pageNum)"
  by (simp add: isPageCall_def ocrPageCall_def)

lemma ocrLoop_calls:
  "\<exists>added. snd (ocrLoop pages pageNum (ocrText, calls)) = calls @ added \<and>
     list_all isPageCall added \<and> length added \<le> Suc (min (length pages) 10) - pageNum"
proof (induction "Suc (min (length pages) 10) - pageNum" arbitrary: pageNum ocrText calls)
  case 0
  then have "\<not> pageNum \<le> min (length pages) 10"
    by arith
  then have "ocrLoop pages pageNum (ocrText, calls) = (Inr ocrText, calls)"
    by (rule ocrLoop_done)
  then show ?case
    by simp
next
  case (Suc k)
  then have le: "pageNum \<le> min (length pages) 10"
    by arith
  define call where "call = ocrPageCall (length pages) pageNum"
  have k: "k = Suc (min (length pages) 10) - (pageNum + 1)"
    using Suc.hyps(2) by arith
  define good where "good r \<longleftrightarrow>
     (\<exists>added. snd r = calls @ added \<and> list_all isPageCall added \<and>
        length added \<le> Suc (min (length pages) 10) - pageNum)" for r :: "(exn + jsstring) \<times> progress list"
  have IH: "good (ocrLoop pages (Suc pageNum) (t, calls @ [call]))" for t
  proof -
    obtain added where a: "snd (ocrLoop pages (pageNum + 1) (t, calls @ [call])) = (calls @ [call]) @ added"
      "list_all isPageCall added" "length added \<le> Suc (min (length pages) 10) - (pageNum + 1)"
      using Suc.hyps(1) [OF k, of t "calls @ [call]"] by blast
    have "length (call # added) = Suc (length added)"
      by simp
    then have "length (call # added) \<le> Suc (min (length pages) 10) - pageNum"
      using a(3) le by arith
    moreover have "list_all isPageCall (call # added)"
      using a(2) isPageCall_ocrPageCall by (simp add: call_def)
    moreover have "snd (ocrLoop pages (Suc pageNum) (t, calls @ [call])) = calls @ call # added"
      using a(1) by simp
    ultimately show ?thesis
      unfolding good_def by blast
  qed
  have single: "good (e, calls @ [call])" for e
  proof -
    have "list_all isPageCall [call]"
      using isPageCall_ocrPageCall by (simp add: call_def)
    moreover have "Suc 0 \<le> Suc (min (length pages) 10) - pageNum"
      using le by arith
    then have "length [call] \<le> Suc (min (length pages) 10) - pageNum"
      by simp
    ultimately show ?thesis
      unfolding good_def by (metis snd_conv)
  qed
  have "good (ocrLoop pages pageNum (ocrText, calls))"
    unfolding ocrLoop_step [OF le] call_def [symmetric]
    using IH single by (simp split: sum.splits)
  then show ?case
    unfolding good_def .
qed

lemma ocrStart_no_page_call: "filter isPageCall ocrStart = []"
  by (simp add: ocrStart_def ocrNotice_def isPageCall_def lit_def)

lemma ocrNotice_not_before:
  "ocrNotice \<notin> set [(Fin 20, lit ''Loading PDF...'')]"
  "ocrNotice \<notin> set [(Fin 20, lit ''Loading PDF...''), (Fin 30, lit ''Extracting text...'')]"
  by (simp_all add: ocrNotice_def)

lemma parsePDFBody_load_failed:
  "file_pdf file = Inl e \<Longrightarrow> parsePDFBody file = (Inl e, [(Fin 20, lit ''Loading PDF...'')])"
  by (simp add: parsePDFBody_def)

lemma parsePDFBody_extract_failed:
  "file_pdf file = Inr pages \<Longrightarrow> extractLoop pages [] = Inl e \<Longrightarrow>
   parsePDFBody file = (Inl e, [(Fin 20, lit ''Loading PDF...''), (Fin 30, lit ''Extracting text...'')])"
  by (simp add: parsePDFBody_def)

lemma parsePDFBody_text:
  "file_pdf file = Inr pages \<Longrightarrow> extractLoop pages [] = Inr fullText \<Longrightarrow>
   \<not> length (trim fullText) < 10 \<Longrightarrow>
   parsePDFBody file =
     (Inr (trim fullText), [(Fin 20, lit ''Loading PDF...''), (Fin 30, lit ''Extracting text...'')])"
  by (simp add: parsePDFBody_def)

lemma parsePDFBody_ocr:
  assumes "file_pdf file = Inr pages" and "extractLoop pages [] = Inr fullText"
    and "length (trim fullText) < 10"
  shows "parsePDFBody file =
     (case ocrLoop (take 10 pages) 1 ([], ocrStart) of
        (Inl e, calls) \<Rightarrow> (Inl e, calls)
      | (Inr ocrText, calls) \<Rightarrow>
          if length (trim ocrText) < 10 then
            (Inl (Error (lit ''Could not extract text from PDF using OCR'')), calls)
          else (Inr (trim ocrText), calls))"
proof -
  have "ocrLoop pages 1 ([], ocrStart) = ocrLoop (take 10 pages) 1 ([], ocrStart)"
    by (rule ocrLoop_take) simp
  then show ?thesis
    using assms by (simp add: parsePDFBody_def ocrStart_def)
qed

lemma snd_parsePDF: "snd (parsePDF file) = snd (parsePDFBody file)"
  by (simp add: parsePDF_def split: prod.splits sum.splits)

lemma parsePDFBody_ocr_calls:
  assumes "file_pdf file = Inr pages" and "extractLoop pages [] = Inr fullText"
    and "length (trim fullText) < 10"
  shows "\<exists>added. snd (parsePDFBody file) = ocrStart @ added \<and> length added \<le> 10"
proof -
  obtain added where a: "snd (ocrLoop (take 10 pages) 1 ([], ocrStart)) = ocrStart @ added"
    "length added \<le> Suc (min (length (take 10 pages)) 10) - 1"
    using ocrLoop_calls [of "take 10 pages" 1 "[]" ocrStart] by blast
  have "snd (parsePDFBody file) = snd (ocrLoop (take 10 pages) 1 ([], ocrStart))"
    unfolding parsePDFBody_ocr [OF assms] by (simp split: prod.splits sum.splits)
  moreover have "length added \<le> 10"
    using a(2) by simp
  ultimately show ?thesis
    using a(1) by auto
qed

lemma ocrOutput_Nil: "ocrOutput [] = []"
  by (simp add: ocrOutput_def)

lemma ocrOutput_skip: "\<not> page_canvasContext page \<Longrightarrow> ocrOutput (page # pages) = ocrOutput pages"
  by (simp add: ocrOutput_def)

lemma ocrOutput_page:
  "page_canvasContext page \<Longrightarrow> page_recognized page = Inr recognized \<Longrightarrow>
   ocrOutput (page # pages) = recognized @ lit ''\<newline>\<newline>'' @ ocrOutput pages"
  by (simp add: ocrOutput_def)

lemma drop_first_pages:
  assumes "j < min (length pages) 10"
  shows "drop j (take 10 pages) = pages ! j # drop (Suc j) (take 10 pages)"
proof -
  have a: "j < length (take 10 pages)" using assms by simp
  have b: "j < 10" using assms by simp
  show ?thesis
    using Cons_nth_drop_Suc [OF a] nth_take [OF b, of pages] by simp
qed

lemma ocrLoop_Suc:
  assumes "Suc j \<le> min (length pages) 10"
  shows "ocrLoop pages (Suc j) (ocrText, calls) =
     (if \<not> page_canvasContext (pages ! j) then
        ocrLoop pages (Suc (Suc j)) (ocrText, calls @ [ocrPageCall (length pages) (Suc j)])
      else (case page_recognized (pages ! j) of
              Inl e \<Rightarrow> (Inl e, calls @ [ocrPageCall (length pages) (Suc j)])
            | Inr recognized \<Rightarrow>
                ocrLoop pages (Suc (Suc j))
                  (ocrText @ recognized @ lit ''\<newline>\<newline>'',
                   calls @ [ocrPageCall (length pages) (Suc j)])))"
  using ocrLoop_step [OF assms, of ocrText calls]
  unfolding diff_Suc_1 Suc_eq_plus1 [symmetric] .

lemma ocrLoop_all:
  assumes "j \<le> min (length pages) 10"
    and "\<forall>i. j \<le> i \<and> i < min (length pages) 10 \<longrightarrow> \<not> ocrFails (pages ! i)"
  shows "ocrLoop pages (Suc j) (ocrText, calls) =
     (Inr (ocrText @ ocrOutput (drop j (take 10 pages))),
      calls @ map (ocrPageCall (length pages)) [Suc j..<Suc (min (length pages) 10)])"
  using assms
proof (induction "min (length pages) 10 - j" arbitrary: j ocrText calls)
  case 0
  then have j: "j = min (length pages) 10"
    by arith
  then have "\<not> Suc j \<le> min (length pages) 10"
    by arith
  then have "ocrLoop pages (Suc j) (ocrText, calls) = (Inr ocrText, calls)"
    by (rule ocrLoop_done)
  moreover have "drop j (take 10 pages) = []"
    using j by simp
  moreover have "[Suc j..<Suc (min (length pages) 10)] = []"
    using j by simp
  ultimately show ?case
    by (simp add: ocrOutput_Nil)
next
  case (Suc k)
  then have lt: "j < min (length pages) 10"
    by arith
  then have le: "Suc j \<le> min (length pages) 10"
    by arith
  define page where "page = pages ! j"
  define call where "call = ocrPageCall (length pages) (Suc j)"
  have k: "k = min (length pages) 10 - Suc j"
    using Suc.hyps(2) by arith
  have later: "\<forall>i. Suc j \<le> i \<and> i < min (length pages) 10 \<longrightarrow> \<not> ocrFails (pages ! i)"
    using Suc.prems(2) by auto
  have IH: "ocrLoop pages (Suc (Suc j)) (t, calls @ [call]) =
     (Inr (t @ ocrOutput (drop (Suc j) (take 10 pages))),
      (calls @ [call]) @ map (ocrPageCall (length pages)) [Suc (Suc j)..<Suc (min (length pages) 10)])" for t
    by (rule Suc.hyps(1) [OF k le later])
  have upt: "[Suc j..<Suc (min (length pages) 10)] = Suc j # [Suc (Suc j)..<Suc (min (length pages) 10)]"
    by (rule upt_conv_Cons) (use le in arith)
  have calls: "calls @ map (ocrPageCall (length pages)) [Suc j..<Suc (min (length pages) 10)] =
      (calls @ [call]) @ map (ocrPageCall (length pages)) [Suc (Suc j)..<Suc (min (length pages) 10)]"
    by (subst upt) (simp add: call_def)
  have pages: "drop j (take 10 pages) = page # drop (Suc j) (take 10 pages)"
    unfolding page_def by (rule drop_first_pages [OF lt])
  have ok: "\<not> ocrFails page"
    using Suc.prems(2) lt by (simp add: page_def)
  have step: "ocrLoop pages (Suc j) (ocrText, calls) =
     (if \<not> page_canvasContext page then ocrLoop pages (Suc (Suc j)) (ocrText, calls @ [call])
      else (case page_recognized page of
              Inl e \<Rightarrow> (Inl e, calls @ [call])
            | Inr recognized \<Rightarrow>
                ocrLoop pages (Suc (Suc j)) (ocrText @ recognized @ lit ''\<newline>\<newline>'', calls @ [call])))"
    unfolding page_def call_def by (rule ocrLoop_Suc [OF le])
  show ?case
  proof (cases "page_canvasContext page")
    case False
    then show ?thesis
      unfolding step calls pages by (simp only: IH ocrOutput_skip if_True simp_thms)
  next
    case True
    then obtain recognized where r: "page_recognized page = Inr recognized"
      using ok by (cases "page_recognized page") (simp_all add: ocrFails_def)
    show ?thesis
      unfolding step calls pages using True r
      by (simp add: IH ocrOutput_page)
  qed
qed

lemma ocrLoop_fails:
  assumes "j \<le> k" and "k < min (length pages) 10"
    and "page_canvasContext (pages ! k)" and "page_recognized (pages ! k) = Inl e"
    and "\<forall>i. j \<le> i \<and> i < k \<longrightarrow> \<not> ocrFails (pages ! i)"
  shows "ocrLoop pages (Suc j) (ocrText, calls) =
     (Inl e, calls @ map (ocrPageCall (length pages)) [Suc j..<Suc (Suc k)])"
  using assms(1,5)
proof (induction "k - j" arbitrary: j ocrText calls)
  case 0
  then have j: "j = k" by arith
  have le: "Suc j \<le> min (length pages) 10"
    using j assms(2) by arith
  have "[Suc j..<Suc (Suc j)] = [Suc j]"
    by (simp add: upt_conv_Cons)
  then show ?case
    using ocrLoop_Suc [OF le, of ocrText calls] assms(3,4) unfolding j by simp
next
  case (Suc d)
  then have lt: "j < k" by arith
  have le: "Suc j \<le> min (length pages) 10"
    using lt assms(2) by arith
  define page where "page = pages ! j"
  define call where "call = ocrPageCall (length pages) (Suc j)"
  have d: "d = k - Suc j"
    using Suc.hyps(2) by arith
  have later: "\<forall>i. Suc j \<le> i \<and> i < k \<longrightarrow> \<not> ocrFails (pages ! i)"
    using Suc.prems(2) by auto
  have next_le: "Suc j \<le> k"
    using lt by arith
  have IH: "ocrLoop pages (Suc (Suc j)) (t, calls @ [call]) =
     (Inl e, (calls @ [call]) @ map (ocrPageCall (length pages)) [Suc (Suc j)..<Suc (Suc k)])" for t
    by (rule Suc.hyps(1) [OF d next_le later])
  have upt: "[Suc j..<Suc (Suc k)] = Suc j # [Suc (Suc j)..<Suc (Suc k)]"
    by (rule upt_conv_Cons) (use lt in arith)
  have calls: "calls @ map (ocrPageCall (length pages)) [Suc j..<Suc (Suc k)] =
      (calls @ [call]) @ map (ocrPageCall (length pages)) [Suc (Suc j)..<Suc (Suc k)]"
    by (subst upt) (simp add: call_def)
  have ok: "\<not> ocrFails page"
    using Suc.prems(2) lt by (simp add: page_def)
  have step: "ocrLoop pages (Suc j) (ocrText, calls) =
     (if \<not> page_canvasContext page then ocrLoop pages (Suc (Suc j)) (ocrText, calls @ [call])
      else (case page_recognized page of
              Inl e \<Rightarrow> (Inl e, calls @ [call])
            | Inr recognized \<Rightarrow>
                ocrLoop pages (Suc (Suc j)) (ocrText @ recognized @ lit ''\<newline>\<newline>'', calls @ [call])))"
    unfolding page_def call_def by (rule ocrLoop_Suc [OF le])
  show ?case
  proof (cases "page_canvasContext page")
    case False
    then show ?thesis
      unfolding step calls by (simp only: IH if_True simp_thms)
  next
    case True
    then obtain recognized where r: "page_recognized page = Inr recognized"
      using ok by (cases "page_recognized page") (simp_all add: ocrFails_def)
    show ?thesis
      unfolding step calls using True r by (simp add: IH)
  qed
qed

lemma parsePDFBody_fallback:
  assumes "file_pdf file = Inr pages" and "extractLoop pages [] = Inr fullText"
    and "length (trim fullText) < 10"
  shows "parsePDFBody file =
     (case ocrLoop pages (Suc 0) ([], ocrStart) of
        (Inl e, calls) \<Rightarrow> (Inl e, calls)
      | (Inr ocrText, calls) \<Rightarrow>
          if length (trim ocrText) < 10 then
            (Inl (Error (lit ''Could not extract text from PDF using OCR'')), calls)
          else (Inr (trim ocrText), calls))"
  using assms by (simp add: parsePDFBody_def ocrStart_def)

lemma failure_ocr:
  "failure (Error (lit ''Could not extract text from PDF using OCR'')) =
   Error (lit ''Failed to parse PDF: Could not extract text from PDF using OCR'')"
  by (simp add: failure_def lit_def)

lemma parsePDF_failure: "parsePDFBody file = (Inl e, calls) \<Longrightarrow> parsePDF file = (Inl (failure e), calls)"
  by (simp add: parsePDF_def failure_def)

lemma parsePDF_success: "parsePDFBody file = (Inr t, calls) \<Longrightarrow> parsePDF file = (Inr t, calls)"
  by (simp add: parsePDF_def)

lemma parsePDF_text:
  "file_pdf file = Inr pages \<Longrightarrow> extractLoop pages [] = Inr fullText \<Longrightarrow>
   \<not> length (trim fullText) < 10 \<Longrightarrow> parsePDF file = (Inr (trim fullText), textCalls)"
  by (simp add: parsePDF_def parsePDFBody_text textCalls_def)

lemma parsePDF_ocr_all:
  assumes "file_pdf file = Inr pages" and "extractLoop pages [] = Inr fullText"
    and "length (trim fullText) < 10"
    and "\<forall>page\<in>set (take 10 pages). \<not> ocrFails page"
  shows "parsePDF file =
     (if length (trim (ocrOutput (take 10 pages))) < 10
      then Inl (Error (lit ''Failed to parse PDF: Could not extract text from PDF using OCR''))
      else Inr (trim (ocrOutput (take 10 pages))),
      ocrStart @ map (ocrPageCall (length pages)) [1..<Suc (min (length pages) 10)])"
proof -
  have "\<not> ocrFails (pages ! i)" if i: "i < min (length pages) 10" for i
  proof -
    have a: "i < length (take 10 pages)" and b: "i < 10"
      using i by simp_all
    have "take 10 pages ! i \<in> set (take 10 pages)"
      using a by (rule nth_mem)
    then show ?thesis
      using assms(4) nth_take [OF b, of pages] by auto
  qed
  then have none: "\<forall>i. 0 \<le> i \<and> i < min (length pages) 10 \<longrightarrow> \<not> ocrFails (pages ! i)"
    by blast
  have "ocrLoop pages (Suc 0) ([], ocrStart) =
     (Inr ([] @ ocrOutput (drop 0 (take 10 pages))),
      ocrStart @ map (ocrPageCall (length pages)) [Suc 0..<Suc (min (length pages) 10)])"
    by (rule ocrLoop_all [OF _ none]) simp
  then have loop: "ocrLoop pages (Suc 0) ([], ocrStart) =
     (Inr (ocrOutput (take 10 pages)),
      ocrStart @ map (ocrPageCall (length pages)) [Suc 0..<Suc (min (length pages) 10)])"
    unfolding drop_0 append_Nil .
  show ?thesis
  proof (cases "length (trim (ocrOutput (take 10 pages))) < 10")
    case True
    have "parsePDFBody file =
       (Inl (Error (lit ''Could not extract text from PDF using OCR'')),
        ocrStart @ map (ocrPageCall (length pages)) [Suc 0..<Suc (min (length pages) 10)])"
      unfolding parsePDFBody_fallback [OF assms(1-3)] loop
      by (simp only: prod.case sum.case True if_True)
    from parsePDF_failure [OF this] show ?thesis
      unfolding failure_ocr One_nat_def by (simp only: True if_True)
  next
    case False
    have "parsePDFBody file =
       (Inr (trim (ocrOutput (take 10 pages))),
        ocrStart @ map (ocrPageCall (length pages)) [Suc 0..<Suc (min (length pages) 10)])"
      unfolding parsePDFBody_fallback [OF assms(1-3)] loop
      by (simp only: prod.case sum.case False if_False)
    from parsePDF_success [OF this] show ?thesis
      unfolding One_nat_def by (simp only: False if_False)
  qed
qed

lemma parsePDF_ocr_fails:
  assumes "file_pdf file = Inr pages" and "extractLoop pages [] = Inr fullText"
    and "length (trim fullText) < 10"
    and "k < min (length pages) 10"
    and "page_canvasContext (pages ! k)" and "page_recognized (pages ! k) = Inl e"
    and "\<forall>i<k. \<not> ocrFails (pages ! i)"
  shows "parsePDF file =
     (Inl (failure e), ocrStart @ map (ocrPageCall (length pages)) [1..<Suc (Suc k)])"
proof -
  have none: "\<forall>i. 0 \<le> i \<and> i < k \<longrightarrow> \<not> ocrFails (pages ! i)"
    using assms(7) by blast
  have loop: "ocrLoop pages (Suc 0) ([], ocrStart) =
     (Inl e, ocrStart @ map (ocrPageCall (length pages)) [Suc 0..<Suc (Suc k)])"
    by (rule ocrLoop_fails [OF _ assms(4-6) none]) simp
  have "parsePDFBody file =
     (Inl e, ocrStart @ map (ocrPageCall (length pages)) [Suc 0..<Suc (Suc k)])"
    unfolding parsePDFBody_fallback [OF assms(1-3)] loop
    by (simp only: prod.case sum.case)
  from parsePDF_failure [OF this] show ?thesis
    unfolding One_nat_def .
qed

lemma extractLoop_readable:
  "\<forall>page\<in>set pages. \<not> isl (page_textContent page) \<Longrightarrow>
   extractLoop pages fullText = Inr (fullText @ extractedText pages)"
proof (induction pages arbitrary: fullText)
  case Nil
  show ?case by (simp add: extractedText_def)
next
  case (Cons page rest)
  then obtain items where items: "page_textContent page = Inr items"
    by (cases "page_textContent page") auto
  have rest: "extractedText (page # rest) =
      (if trim (pageText items) \<noteq> [] then pageText items @ lit ''\<newline>\<newline>'' else []) @
      extractedText rest"
    by (simp add: extractedText_def items)
  show ?case
    using Cons.IH Cons.prems by (simp add: items rest)
qed

text \<open>
  C5: \<open>parsePDF\<close> falls back to OCR (it announces the OCR pass through
  \<open>onProgress\<close>) exactly when the document loads, the text of its pages is read and the
  trimmed text is shorter than 10 characters. The text read is that of the pages whose
  items are not blank; when its trimmed form has 10 characters or more it is the result
  and nothing of the OCR pass happens. The OCR pass makes one call of \<open>onProgress\<close> per
  page for the pages 1 to \<open>min(numPages, 10)\<close>, in this order and so at most 10, and
  its output is the recognized text of those of the first 10 pages that give a canvas
  context, each followed by two line breaks. When the trimmed output is shorter than 10
  characters the parse fails with the error
  \<open>Failed to parse PDF: Could not extract text from PDF using OCR\<close>, and otherwise the
  trimmed output is the result. When rendering or recognition throws at one of these
  pages, the pass stops at that page and the parse fails with the message of the
  exception.
\<close>

theorem parsePDF_ocr_fallback:
  "(ocrNotice \<in> set (snd (parsePDF file)) \<longleftrightarrow>
      (\<exists>pages fullText. file_pdf file = Inr pages \<and> extractLoop pages [] = Inr fullText \<and>
         length (trim fullText) < 10)) \<and>
   (\<forall>pages. (\<forall>page\<in>set pages. \<not> isl (page_textContent page)) \<longrightarrow>
      extractLoop pages [] = Inr (extractedText pages)) \<and>
   (\<forall>pages fullText.
      file_pdf file = Inr pages \<and> extractLoop pages [] = Inr fullText \<and>
      \<not> length (trim fullText) < 10 \<longrightarrow>
      parsePDF file =
        (Inr (trim fullText), [(Fin 20, lit ''Loading PDF...''), (Fin 30, lit ''Extracting text...'')])) \<and>
   length (filter isPageCall (snd (parsePDF file))) \<le> 10 \<and>
   (\<forall>pages fullText.
      file_pdf file = Inr pages \<and> extractLoop pages [] = Inr fullText \<and>
      length (trim fullText) < 10 \<and> (\<forall>page\<in>set (take 10 pages). \<not> ocrFails page) \<longrightarrow>
      parsePDF file =
        (if length (trim (ocrOutput (take 10 pages))) < 10
         then Inl (Error (lit ''Failed to parse PDF: Could not extract text from PDF using OCR''))
         else Inr (trim (ocrOutput (take 10 pages))),
         ocrStart @ map (ocrPageCall (length pages)) [1..<Suc (min (length pages) 10)])) \<and>
   (\<forall>pages fullText k e.
      file_pdf file = Inr pages \<and> extractLoop pages [] = Inr fullText \<and>
      length (trim fullText) < 10 \<and> k < min (length pages) 10 \<and>
      page_canvasContext (pages ! k) \<and> page_recognized (pages ! k) = Inl e \<and>
      (\<forall>i<k. \<not> ocrFails (pages ! i)) \<longrightarrow>
      parsePDF file =
        (Inl (Error (lit ''Failed to parse PDF: '' @
                (case e of Error message \<Rightarrow> message | NonError \<Rightarrow> lit ''Unknown error''))),
         ocrStart @ map (ocrPageCall (length pages)) [1..<Suc (Suc k)]))"
proof (intro conjI allI impI)
  show "ocrNotice \<in> set (snd (parsePDF file)) \<longleftrightarrow>
      (\<exists>pages fullText. file_pdf file = Inr pages \<and> extractLoop pages [] = Inr fullText \<and>
         length (trim fullText) < 10)"
  proof (cases "file_pdf file")
    case (Inl e)
    then show ?thesis
      using ocrNotice_not_before(1) by (simp add: snd_parsePDF parsePDFBody_load_failed)
  next
    case pages: (Inr pages)
    show ?thesis
    proof (cases "extractLoop pages []")
      case (Inl e)
      then show ?thesis
        using pages ocrNotice_not_before(2) by (simp add: snd_parsePDF parsePDFBody_extract_failed)
    next
      case full: (Inr fullText)
      show ?thesis
      proof (cases "length (trim fullText) < 10")
        case True
        then obtain added where "snd (parsePDFBody file) = ocrStart @ added"
          using parsePDFBody_ocr_calls [OF pages full] by blast
        then have "ocrNotice \<in> set (snd (parsePDF file))"
          by (simp add: snd_parsePDF ocrStart_def)
        then show ?thesis
          using pages full True by blast
      next
        case False
        then show ?thesis
          using pages full ocrNotice_not_before(2) by (simp add: snd_parsePDF parsePDFBody_text)
      qed
    qed
  qed
next
  fix pages :: "PdfPage list"
  assume "\<forall>page\<in>set pages. \<not> isl (page_textContent page)"
  then show "extractLoop pages [] = Inr (extractedText pages)"
    using extractLoop_readable [of pages "[]"] by simp
next
  fix pages fullText
  assume "file_pdf file = Inr pages \<and> extractLoop pages [] = Inr fullText \<and>
      \<not> length (trim fullText) < 10"
  then show "parsePDF file =
      (Inr (trim fullText), [(Fin 20, lit ''Loading PDF...''), (Fin 30, lit ''Extracting text...'')])"
    by (simp add: parsePDF_text textCalls_def)
next
  show "length (filter isPageCall (snd (parsePDF file))) \<le> 10"
  proof (cases "file_pdf file")
    case (Inl e)
    then show ?thesis
      by (simp add: snd_parsePDF parsePDFBody_load_failed)
  next
    case pages: (Inr pages)
    show ?thesis
    proof (cases "extractLoop pages []")
      case (Inl e)
      then show ?thesis
        using pages by (simp add: snd_parsePDF parsePDFBody_extract_failed)
    next
      case full: (Inr fullText)
      show ?thesis
      proof (cases "length (trim fullText) < 10")
        case True
        then obtain added where a: "snd (parsePDFBody file) = ocrStart @ added" "length added \<le> 10"
          using parsePDFBody_ocr_calls [OF pages full] by blast
        have "length (filter isPageCall added) \<le> 10"
          by (rule order_trans [OF length_filter_le a(2)])
        then show ?thesis
          using a(1) by (simp add: snd_parsePDF ocrStart_no_page_call)
      next
        case False
        then show ?thesis
          using pages full by (simp add: snd_parsePDF parsePDFBody_text)
      qed
    qed
  qed
next
  fix pages fullText
  assume h: "file_pdf file = Inr pages \<and> extractLoop pages [] = Inr fullText \<and>
      length (trim fullText) < 10 \<and> (\<forall>page\<in>set (take 10 pages). \<not> ocrFails page)"
  then have a: "file_pdf file = Inr pages" and b: "extractLoop pages [] = Inr fullText"
    and c: "length (trim fullText) < 10" and d: "\<forall>page\<in>set (take 10 pages). \<not> ocrFails page"
    by blast+
  show "parsePDF file =
        (if length (trim (ocrOutput (take 10 pages))) < 10
         then Inl (Error (lit ''Failed to parse PDF: Could not extract text from PDF using OCR''))
         else Inr (trim (ocrOutput (take 10 pages))),
         ocrStart @ map (ocrPageCall (length pages)) [1..<Suc (min (length pages) 10)])"
    by (rule parsePDF_ocr_all [OF a b c d])
next
  fix pages fullText k e
  assume h: "file_pdf file = Inr pages \<and> extractLoop pages [] = Inr fullText \<and>
      length (trim fullText) < 10 \<and> k < min (length pages) 10 \<and>
      page_canvasContext (pages ! k) \<and> page_recognized (pages ! k) = Inl e \<and>
      (\<forall>i<k. \<not> ocrFails (pages ! i))"
  then have a: "file_pdf file = Inr pages" and b: "extractLoop pages [] = Inr fullText"
    and c: "length (trim fullText) < 10" and d: "k < min (length pages) 10"
    and f: "page_canvasContext (pages ! k)" and g: "page_recognized (pages ! k) = Inl e"
    and i: "\<forall>i<k. \<not> ocrFails (pages ! i)"
    by blast+
  show "parsePDF file =
        (Inl (Error (lit ''Failed to parse PDF: '' @
                (case e of Error message \<Rightarrow> message | NonError \<Rightarrow> lit ''Unknown error''))),
         ocrStart @ map (ocrPageCall (length pages)) [1..<Suc (Suc k)])"
    using parsePDF_ocr_fails [OF a b c d f g i] unfolding failure_def .
qed

section \<open>File parsers: sample PDF files\<close>

lemma scanned_facts:
  "file_pdf scannedPdf = Inr [samplePage [] (lit ''abc'')]"
  "extractLoop [samplePage [] (lit ''abc'')] [] = Inr []"
  "length (trim []) < 10"
  "ocrLoop (take 10 [samplePage [] (lit ''abc'')]) 1 ([], ocrStart) =
     (Inr (lit ''abc\<newline>\<newline>''), ocrStart @ [ocrPageCall 1 1])"
  "length (trim (lit ''abc\<newline>\<newline>'')) < 10"
  by (simp_all add: scannedPdf_def sampleFile_def samplePage_def pageText_def trim_def
      ocrLoop.simps lit_def isWhiteSpace_def)

lemma text_facts:
  "file_pdf textPdf = Inr [samplePage [ItemObject (Some (lit ''Annual report'')) None, ItemString (lit ''2024'')] []]"
  "extractLoop [samplePage [ItemObject (Some (lit ''Annual report'')) None, ItemString (lit ''2024'')] []] [] =
     Inr (lit ''Annual report 2024\<newline>\<newline>'')"
  "\<not> length (trim (lit ''Annual report 2024\<newline>\<newline>'')) < 10"
  "trim (lit ''Annual report 2024\<newline>\<newline>'') = lit ''Annual report 2024''"
  by (simp_all add: textPdf_def sampleFile_def samplePage_def pageText_def trim_def
      lit_def isWhiteSpace_def space_def)

lemma book_facts:
  "file_pdf scannedBook = Inr bookPages"
  "extractLoop bookPages [] = Inr []"
  "length (trim ([] :: jsstring)) < 10"
  "\<forall>page\<in>set (take 10 bookPages). \<not> ocrFails page"
  "ocrOutput (take 10 bookPages) = concat (replicate 9 (lit ''scan\<newline>\<newline>''))"
  "length bookPages = 11"
  "\<not> length (trim (concat (replicate 9 (lit ''scan\<newline>\<newline>'')))) < 10"
  "length (trim (concat (replicate 9 (lit ''scan\<newline>\<newline>'')))) = 52"
  by code_simp+

lemma broken_facts:
  "file_pdf brokenScan = Inr brokenPages"
  "extractLoop brokenPages [] = Inr []"
  "Suc 0 < min (length brokenPages) 10"
  "page_canvasContext (brokenPages ! Suc 0)"
  "page_recognized (brokenPages ! Suc 0) = Inl (Error (lit ''out of memory''))"
  "\<forall>i<Suc 0. \<not> ocrFails (brokenPages ! i)"
  "length brokenPages = 3"
  by code_simp+

theorem parsePDF_ocr_fallback_witness:
  "parsePDF scannedBook =
     (Inr (trim (concat (replicate 9 (lit ''scan\<newline>\<newline>'')))),
      ocrStart @ map (ocrPageCall 11) [1..<11]) \<and>
   length (trim (concat (replicate 9 (lit ''scan\<newline>\<newline>'')))) = 52 \<and>
   parsePDF brokenScan =
     (Inl (Error (lit ''Failed to parse PDF: out of memory'')),
      ocrStart @ map (ocrPageCall 3) [1..<3]) \<and>
   ocrNotice \<in> set (snd (parsePDF scannedPdf)) \<and>
   fst (parsePDF scannedPdf) =
     Inl (Error (lit ''Failed to parse PDF: Could not extract text from PDF using OCR'')) \<and>
   ocrNotice \<notin> set (snd (parsePDF textPdf)) \<and>
   fst (parsePDF textPdf) = Inr (lit ''Annual report 2024'')"
proof -
  note notice = parsePDF_ocr_fallback [THEN conjunct1]
  note direct = parsePDF_ocr_fallback [THEN conjunct2, THEN conjunct2, THEN conjunct1, rule_format]
  note pass = parsePDF_ocr_fallback
    [THEN conjunct2, THEN conjunct2, THEN conjunct2, THEN conjunct2, THEN conjunct1, rule_format]
  note thrown = parsePDF_ocr_fallback
    [THEN conjunct2, THEN conjunct2, THEN conjunct2, THEN conjunct2, THEN conjunct2, rule_format]
  have "parsePDF scannedBook =
        (if length (trim (ocrOutput (take 10 bookPages))) < 10
         then Inl (Error (lit ''Failed to parse PDF: Could not extract text from PDF using OCR''))
         else Inr (trim (ocrOutput (take 10 bookPages))),
         ocrStart @ map (ocrPageCall (length bookPages)) [1..<Suc (min (length bookPages) 10)])"
    using book_facts(1-4) by (intro pass conjI)
  then have 1: "parsePDF scannedBook =
     (Inr (trim (concat (replicate 9 (lit ''scan\<newline>\<newline>'')))),
      ocrStart @ map (ocrPageCall 11) [1..<11])"
    by (simp add: book_facts(5-7))
  have "parsePDF brokenScan =
        (Inl (Error (lit ''Failed to parse PDF: '' @
                (case Error (lit ''out of memory'') of Error message \<Rightarrow> message
                 | NonError \<Rightarrow> lit ''Unknown error''))),
         ocrStart @ map (ocrPageCall (length brokenPages)) [1..<Suc (Suc (Suc 0))])"
    using broken_facts(1-6) book_facts(3) by (intro thrown conjI)
  then have 2: "parsePDF brokenScan =
     (Inl (Error (lit ''Failed to parse PDF: out of memory'')),
      ocrStart @ map (ocrPageCall 3) [1..<3])"
    by (simp add: broken_facts(7) lit_def numeral_3_eq_3)
  have "\<exists>pages fullText. file_pdf scannedPdf = Inr pages \<and> extractLoop pages [] = Inr fullText \<and>
         length (trim fullText) < 10"
    using scanned_facts(1-3) by (intro exI conjI)
  then have 3: "ocrNotice \<in> set (snd (parsePDF scannedPdf))"
    by (simp only: notice [of scannedPdf])
  have none: "\<forall>page\<in>set (take 10 [samplePage [] (lit ''abc'')]). \<not> ocrFails page"
    by code_simp
  have short: "length (trim (ocrOutput (take 10 [samplePage [] (lit ''abc'')]))) < 10"
    by code_simp
  have "parsePDF scannedPdf =
        (if length (trim (ocrOutput (take 10 [samplePage [] (lit ''abc'')]))) < 10
         then Inl (Error (lit ''Failed to parse PDF: Could not extract text from PDF using OCR''))
         else Inr (trim (ocrOutput (take 10 [samplePage [] (lit ''abc'')]))),
         ocrStart @ map (ocrPageCall (length [samplePage [] (lit ''abc'')]))
           [1..<Suc (min (length [samplePage [] (lit ''abc'')]) 10)])"
    using scanned_facts(1-3) none by (intro pass conjI)
  then have 4: "fst (parsePDF scannedPdf) =
     Inl (Error (lit ''Failed to parse PDF: Could not extract text from PDF using OCR''))"
    by (simp only: short if_True fst_conv)
  have "\<not> (\<exists>pages fullText. file_pdf textPdf = Inr pages \<and> extractLoop pages [] = Inr fullText \<and>
         length (trim fullText) < 10)"
    using text_facts(1-3) by auto
  then have 5: "ocrNotice \<notin> set (snd (parsePDF textPdf))"
    by (simp only: notice [of textPdf] not_False_eq_True)
  have "parsePDF textPdf =
        (Inr (trim (lit ''Annual report 2024\<newline>\<newline>'')),
         [(Fin 20, lit ''Loading PDF...''), (Fin 30, lit ''Extracting text...'')])"
    using text_facts(1-3) by (intro direct conjI)
  then have 6: "fst (parsePDF textPdf) = Inr (lit ''Annual report 2024'')"
    by (simp only: text_facts(4) fst_conv)
  from 1 book_facts(8) 2 3 4 5 6 show ?thesis
    by (intro conjI)
qed

section \<open>File parsers: the dispatch of parseFile\<close>

lemma all_formats: "fmt \<in> set [PlainText, Pdf, Docx, Spreadsheet]"
  by (cases fmt) simp_all

lemma formatOf_None: "formatOf env file = None \<longleftrightarrow> (\<forall>fmt. \<not> hasFormat env file fmt)"
  unfolding formatOf_def find_None_iff using all_formats by blast

lemma formatOf_Some: "formatOf env file = Some fmt \<Longrightarrow> hasFormat env file fmt"
  unfolding formatOf_def find_Some_iff by blast

text \<open>
  C7: \<open>parseFile\<close> dispatches on the MIME type or the extension of the file name
  to exactly one extractor, the one of the first format the file has (plain text or
  markdown, PDF, DOCX, XLSX or XLS), and throws the error
  \<open>Unsupported file type: ...\<close> for every file that has none of these formats.
\<close>

theorem parseFile_dispatch:
  "parseFile env file =
     (case formatOf env file of
        Some fmt \<Rightarrow> extractor fmt file
      | None \<Rightarrow> (Inl (unsupported env file), [])) \<and>
   (formatOf env file = None \<longleftrightarrow> (\<forall>fmt. \<not> hasFormat env file fmt)) \<and>
   (\<forall>fmt. formatOf env file = Some fmt \<longrightarrow> hasFormat env file fmt)"
proof (intro conjI allI impI)
  show "parseFile env file =
     (case formatOf env file of
        Some fmt \<Rightarrow> extractor fmt file
      | None \<Rightarrow> (Inl (unsupported env file), []))"
    by (simp add: parseFile_def formatOf_def unsupported_def endsWith_def Let_def)
  show "formatOf env file = None \<longleftrightarrow> (\<forall>fmt. \<not> hasFormat env file fmt)"
    by (rule formatOf_None)
next
  fix fmt assume "formatOf env file = Some fmt"
  then show "hasFormat env file fmt"
    by (rule formatOf_Some)
qed

lemma formatOf_samples:
  "formatOf (sampleEnv offline offline) (sampleFile (lit ''Notes.TXT'') [] (lit ''hello'') []) =
     Some PlainText"
  "formatOf (sampleEnv offline offline)
     (sampleFile (lit ''a.txt'') (lit ''application/pdf'') (lit ''hello'') []) = Some PlainText"
  "formatOf (sampleEnv offline offline)
     (sampleFile (lit ''a.bin'') (lit ''application/octet-stream'') (lit ''hello'') []) = None"
  "formatOf (sampleEnv offline offline) (sampleFile (lit ''A.BIN'') [] (lit ''hello'') []) = None"
  by (simp_all add: formatOf_def sampleEnv_def sampleFile_def lit_def asciiLower_def suffix_to_prefix)

theorem parseFile_dispatch_witness:
  "parseFile (sampleEnv offline offline) (sampleFile (lit ''Notes.TXT'') [] (lit ''hello'') []) =
     (Inr (lit ''hello''), []) \<and>
   parseFile (sampleEnv offline offline)
     (sampleFile (lit ''a.txt'') (lit ''application/pdf'') (lit ''hello'') []) =
     (Inr (lit ''hello''), []) \<and>
   parseFile (sampleEnv offline offline)
     (sampleFile (lit ''a.bin'') (lit ''application/octet-stream'') (lit ''hello'') []) =
     (Inl (Error (lit ''Unsupported file type: application/octet-stream'')), []) \<and>
   parseFile (sampleEnv offline offline) (sampleFile (lit ''A.BIN'') [] (lit ''hello'') []) =
     (Inl (Error (lit ''Unsupported file type: a.bin'')), [])"
  using
    parseFile_dispatch [of "sampleEnv offline offline" "sampleFile (lit ''Notes.TXT'') [] (lit ''hello'') []"]
    parseFile_dispatch [of "sampleEnv offline offline"
      "sampleFile (lit ''a.txt'') (lit ''application/pdf'') (lit ''hello'') []"]
    parseFile_dispatch [of "sampleEnv offline offline"
      "sampleFile (lit ''a.bin'') (lit ''application/octet-stream'') (lit ''hello'') []"]
    parseFile_dispatch [of "sampleEnv offline offline" "sampleFile (lit ''A.BIN'') [] (lit ''hello'') []"]
  by (simp add: formatOf_samples unsupported_def)
    (simp add: sampleFile_def sampleEnv_def lit_def asciiLower_def)

section \<open>Upload: degradation without embeddings\<close>

lemma embedLoop_done:
  assumes "\<not> i < length textChunks"
  shows "embedLoop env useEmbeddings documentId textChunks i (chunks, calls) = (chunks, calls)"
  by (subst embedLoop.simps) (simp only: Let_def if_not_P [OF assms])

lemma embedLoop_step:
  assumes "i < length textChunks"
  shows "\<exists>calls'. embedLoop env useEmbeddings documentId textChunks i (chunks, calls) =
     embedLoop env useEmbeddings documentId textChunks (Suc i)
       (chunks @ [uploadedChunk env useEmbeddings documentId textChunks i], calls')"
  by (subst embedLoop.simps)
    (auto simp only: Let_def if_P [OF assms] uploadedChunk_def Suc_eq_plus1 split: sum.splits if_splits)

lemma embedLoop_chunks:
  "fst (embedLoop env useEmbeddings documentId textChunks i (chunks, calls)) =
     chunks @ map (uploadedChunk env useEmbeddings documentId textChunks) [i..<length textChunks]"
proof (induction "length textChunks - i" arbitrary: i chunks calls)
  case 0
  then have n: "\<not> i < length textChunks"
    by simp
  then show ?case
    by (simp add: embedLoop_done [OF n])
next
  case (Suc k)
  then have lt: "i < length textChunks"
    by simp
  have k: "k = length textChunks - Suc i"
    using Suc.hyps(2) by simp
  obtain calls' where step: "embedLoop env useEmbeddings documentId textChunks i (chunks, calls) =
     embedLoop env useEmbeddings documentId textChunks (Suc i)
       (chunks @ [uploadedChunk env useEmbeddings documentId textChunks i], calls')"
    using embedLoop_step [OF lt] by blast
  have "[i..<length textChunks] = i # [Suc i..<length textChunks]"
    using lt by (rule upt_conv_Cons)
  then show ?case
    unfolding step Suc.hyps(1) [OF k] by simp
qed

lemma map_chunk_content_uploaded:
  "map chunk_content (map (uploadedChunk env useEmbeddings documentId textChunks) [0..<length textChunks]) =
     textChunks"
proof -
  have "chunk_content (uploadedChunk env useEmbeddings documentId textChunks i) = textChunks ! i" for i
    by (simp add: uploadedChunk_def plainChunk_def split: sum.splits)
  then have "map chunk_content (map (uploadedChunk env useEmbeddings documentId textChunks) [0..<length textChunks]) =
      map (\<lambda>i. textChunks ! i) [0..<length textChunks]"
    by simp
  then show ?thesis
    by (simp add: map_nth)
qed

lemma chunk_embedding_uploaded:
  "chunk_embedding (uploadedChunk env useEmbeddings documentId textChunks i) =
     (if useEmbeddings then
        (case generateEmbedding (embeddingsEndpoint env i) (textChunks ! i) of
           Inr embedding \<Rightarrow> Some embedding
         | Inl e \<Rightarrow> None)
      else None)"
  by (simp add: uploadedChunk_def plainChunk_def split: sum.splits)

lemma getItem_setItem: "getItem key (setItem key val entries) = Some val"
  by (induction entries) (auto simp: getItem_def)

lemma uploadDocument_parsed:
  assumes "parseFile env file = (Inr content, parsing)"
  shows "\<exists>calls. uploadDocument env file s =
     ((Inr \<lparr>doc_id = uploadedId env, doc_name = file_name file, doc_type = file_type file,
             doc_size = file_size file, doc_uploadedAt = Fin (real (newDate env)),
             doc_content = content,
             doc_chunks = map (uploadedChunk env (fst (checkEmbeddingModel env s)) (uploadedId env)
                                 (chunkText content 800 100))
                            [0..<length (chunkText content 800 100)]\<rparr>, calls),
      (snd (checkEmbeddingModel env s))\<lparr>documentsStore :=
         setItem (uploadedId env)
           \<lparr>doc_id = uploadedId env, doc_name = file_name file, doc_type = file_type file,
             doc_size = file_size file, doc_uploadedAt = Fin (real (newDate env)),
             doc_content = content,
             doc_chunks = map (uploadedChunk env (fst (checkEmbeddingModel env s)) (uploadedId env)
                                 (chunkText content 800 100))
                            [0..<length (chunkText content 800 100)]\<rparr>
           (documentsStore (snd (checkEmbeddingModel env s)))\<rparr>)"
proof -
  obtain useEmbeddings s1 where c: "checkEmbeddingModel env s = (useEmbeddings, s1)"
    by (cases "checkEmbeddingModel env s") auto
  define start where "start =
    [(Fin 10, lit ''Parsing document...'')] @ parsing @ [(Fin 50, lit ''Chunking text...'')] @
    [(Fin 60, lit ''Checking embedding model...'')]"
  obtain chunks calls where e: "embedLoop env useEmbeddings (uploadedId env) (chunkText content 800 100) 0
      ([], start) = (chunks, calls)"
    by (cases "embedLoop env useEmbeddings (uploadedId env) (chunkText content 800 100) 0 ([], start)") auto
  have chunks: "chunks = map (uploadedChunk env useEmbeddings (uploadedId env) (chunkText content 800 100))
      [0..<length (chunkText content 800 100)]"
    using embedLoop_chunks [of env useEmbeddings "uploadedId env" "chunkText content 800 100" 0 "[]" start] e
    by simp
  show ?thesis
    using assms c e chunks
    by (simp add: uploadDocument_def Let_def uploadedId_def start_def)
qed

text \<open>
  C4: for every file that parses, \<open>uploadDocument\<close> succeeds whatever
  \<open>checkEmbeddingModel\<close> answers and whatever becomes of each embedding request: it
  returns and stores a document whose chunks hold the text chunks of
  \<open>chunkText(content, 800, 100)\<close>, each once and in order; a chunk has an embedding
  exactly when embeddings are in use and its request succeeded, and otherwise lacks the
  field.
\<close>

theorem uploadDocument_degrades:
  assumes "fst (parseFile env file) = Inr content"
  shows "\<exists>document calls.
     fst (uploadDocument env file s) = (Inr document, calls) \<and>
     doc_content document = content \<and>
     map chunk_content (doc_chunks document) = chunkText content 800 100 \<and>
     getItem (doc_id document) (documentsStore (snd (uploadDocument env file s))) = Some document \<and>
     (\<forall>i<length (doc_chunks document).
        chunk_embedding (doc_chunks document ! i) =
          (if fst (checkEmbeddingModel env s) then
             (case generateEmbedding (embeddingsEndpoint env i) (chunkText content 800 100 ! i) of
                Inr embedding \<Rightarrow> Some embedding
              | Inl e \<Rightarrow> None)
           else None))"
proof -
  obtain parsing where p: "parseFile env file = (Inr content, parsing)"
    using assms by (cases "parseFile env file") auto
  define document where "document =
     \<lparr>doc_id = uploadedId env, doc_name = file_name file, doc_type = file_type file,
       doc_size = file_size file, doc_uploadedAt = Fin (real (newDate env)),
       doc_content = content,
       doc_chunks = map (uploadedChunk env (fst (checkEmbeddingModel env s)) (uploadedId env)
                           (chunkText content 800 100))
                      [0..<length (chunkText content 800 100)]\<rparr>"
  obtain calls where u: "uploadDocument env file s =
     ((Inr document, calls),
      (snd (checkEmbeddingModel env s))\<lparr>documentsStore :=
         setItem (uploadedId env) document (documentsStore (snd (checkEmbeddingModel env s)))\<rparr>)"
    using uploadDocument_parsed [OF p] unfolding document_def by blast
  have 1: "fst (uploadDocument env file s) = (Inr document, calls)"
    using u by simp
  have 2: "doc_content document = content"
    by (simp add: document_def)
  have 3: "map chunk_content (doc_chunks document) = chunkText content 800 100"
    by (simp add: document_def map_chunk_content_uploaded del: map_map)
  have 4: "getItem (doc_id document) (documentsStore (snd (uploadDocument env file s))) = Some document"
    using u by (simp add: getItem_setItem document_def)
  have 5: "\<forall>i<length (doc_chunks document).
        chunk_embedding (doc_chunks document ! i) =
          (if fst (checkEmbeddingModel env s) then
             (case generateEmbedding (embeddingsEndpoint env i) (chunkText content 800 100 ! i) of
                Inr embedding \<Rightarrow> Some embedding
              | Inl e \<Rightarrow> None)
           else None)"
    by (simp add: document_def chunk_embedding_uploaded)
  from 1 2 3 4 5 show ?thesis by blast
qed

lemma notes_facts:
  "fst (parseFile failingEmbeddings notesFile) = Inr (lit ''Hello world. Bye now'')"
  "fst (checkEmbeddingModel failingEmbeddings (sampleState [])) = True"
  "generateEmbedding (embeddingsEndpoint failingEmbeddings 0) text = Inl (Error (lit ''Failed to fetch''))"
  by (simp_all add: parseFile_def notesFile_def sampleFile_def failingEmbeddings_def sampleEnv_def
      checkEmbeddingModel_def sampleState_def EMBEDDING_MODEL_def lit_def generateEmbedding_def
      offline_def)

lemma notes_chunks: "chunkText (lit ''Hello world. Bye now'') 800 100 = [lit ''Hello world. Bye now'']"
  by code_simp

theorem uploadDocument_degrades_witness:
  "fst (parseFile failingEmbeddings notesFile) = Inr (lit ''Hello world. Bye now'') \<and>
   fst (checkEmbeddingModel failingEmbeddings (sampleState [])) = True \<and>
   (\<exists>document calls.
      fst (uploadDocument failingEmbeddings notesFile (sampleState [])) = (Inr document, calls) \<and>
      map chunk_content (doc_chunks document) = [lit ''Hello world. Bye now''] \<and>
      map chunk_embedding (doc_chunks document) = [None] \<and>
      getItem (doc_id document)
        (documentsStore (snd (uploadDocument failingEmbeddings notesFile (sampleState [])))) =
        Some document)"
proof -
  obtain document calls where
    u: "fst (uploadDocument failingEmbeddings notesFile (sampleState [])) = (Inr document, calls)" and
    c: "map chunk_content (doc_chunks document) = chunkText (lit ''Hello world. Bye now'') 800 100" and
    g: "getItem (doc_id document)
          (documentsStore (snd (uploadDocument failingEmbeddings notesFile (sampleState [])))) =
          Some document" and
    e: "\<forall>i<length (doc_chunks document).
        chunk_embedding (doc_chunks document ! i) =
          (if fst (checkEmbeddingModel failingEmbeddings (sampleState [])) then
             (case generateEmbedding (embeddingsEndpoint failingEmbeddings i)
                     (chunkText (lit ''Hello world. Bye now'') 800 100 ! i) of
                Inr embedding \<Rightarrow> Some embedding
              | Inl e \<Rightarrow> None)
           else None)"
    using uploadDocument_degrades [OF notes_facts(1), of "sampleState []"] by blast
  have c': "map chunk_content (doc_chunks document) = [lit ''Hello world. Bye now'']"
    using c by (simp only: notes_chunks)
  then obtain chunk where d: "doc_chunks document = [chunk]"
    by auto
  have "chunk_embedding chunk = None"
    using e d by (simp add: notes_facts)
  then have n: "map chunk_embedding (doc_chunks document) = [None]"
    using d by simp
  have "\<exists>document calls.
      fst (uploadDocument failingEmbeddings notesFile (sampleState [])) = (Inr document, calls) \<and>
      map chunk_content (doc_chunks document) = [lit ''Hello world. Bye now''] \<and>
      map chunk_embedding (doc_chunks document) = [None] \<and>
      getItem (doc_id document)
        (documentsStore (snd (uploadDocument failingEmbeddings notesFile (sampleState [])))) =
        Some document"
    using u c' n g by (intro exI conjI)
  then show ?thesis
    using notes_facts(1,2) by (intro conjI)
qed

section \<open>Similarity ranker: the ranking\<close>

lemma jsgt_sub: "jsgt (jssub b a) (Fin 0) \<Longrightarrow> jsge b a \<and> a \<noteq> NaN \<and> b \<noteq> NaN"
  by (cases a; cases b) (auto simp: jssub_def)

lemma not_jsgt_sub: "a \<noteq> NaN \<Longrightarrow> b \<noteq> NaN \<Longrightarrow> \<not> jsgt (jssub b a) (Fin 0) \<Longrightarrow> jsge a b"
  by (cases a; cases b) (auto simp: jssub_def)

lemma jsge_trans:
  assumes "jsge a b" and "jsge b c"
  shows "jsge a c"
proof (cases a)
  case (Fin x)
  with assms show ?thesis by (cases b; cases c) auto
next
  case PosInf
  with assms show ?thesis by (cases b; cases c) auto
next
  case NegInf
  with assms show ?thesis by (cases b; cases c) auto
next
  case NaN
  with assms show ?thesis by simp
qed

lemma set_takeWhile_insertBy:
  "z \<in> set (takeWhile P (insertBy comparefn x ys)) \<Longrightarrow> z = x \<or> z \<in> set (takeWhile P ys)"
proof (induction ys)
  case Nil
  then show ?case by (cases "P x") simp_all
next
  case (Cons y ys)
  show ?case
  proof (cases "jsgt (comparefn x y) (Fin 0)")
    case True
    with Cons show ?thesis by (cases "P y") auto
  next
    case False
    with Cons.prems show ?thesis by (cases "P x") simp_all
  qed
qed

lemma descending_Cons:
  "descending (x # xs) \<longleftrightarrow> (\<forall>z\<in>set xs. jsge (sc_score x) (sc_score z)) \<and> descending xs"
  by (simp add: descending_def)

lemma insertBy_descending:
  assumes "descending (takeWhile scored ys)"
  shows "descending (takeWhile scored (insertBy byScore x ys))"
  using assms
proof (induction ys)
  case Nil
  show ?case by (simp add: descending_def)
next
  case (Cons y ys)
  show ?case
  proof (cases "jsgt (byScore x y) (Fin 0)")
    case True
    then have gt: "jsge (sc_score y) (sc_score x)" and sy: "scored y"
      using jsgt_sub [of "sc_score y" "sc_score x"] by (simp_all add: byScore_def scored_def)
    from Cons.prems sy have d: "descending (y # takeWhile scored ys)"
      by simp
    then have rest: "descending (takeWhile scored ys)"
      and above: "\<forall>z\<in>set (takeWhile scored ys). jsge (sc_score y) (sc_score z)"
      by (simp_all add: descending_Cons)
    have "\<forall>z\<in>set (takeWhile scored (insertBy byScore x ys)). jsge (sc_score y) (sc_score z)"
      using set_takeWhile_insertBy [of _ scored byScore x ys] above gt by blast
    then have "descending (y # takeWhile scored (insertBy byScore x ys))"
      using Cons.IH [OF rest] by (simp add: descending_Cons)
    then show ?thesis
      using True sy by simp
  next
    case False
    show ?thesis
    proof (cases "scored x")
      case nx: False
      then show ?thesis
        using False by (simp add: descending_def)
    next
      case sx: True
      show ?thesis
      proof (cases "scored y")
        case ny: False
        then show ?thesis
          using False sx by (simp add: descending_def)
      next
        case sy: True
        have xy: "jsge (sc_score x) (sc_score y)"
          using not_jsgt_sub [of "sc_score x" "sc_score y"] False sx sy
          by (simp add: byScore_def scored_def)
        from Cons.prems sy have d: "descending (y # takeWhile scored ys)"
          by simp
        then have above: "\<forall>z\<in>set (takeWhile scored ys). jsge (sc_score y) (sc_score z)"
          by (simp add: descending_Cons)
        have "\<forall>z\<in>set (y # takeWhile scored ys). jsge (sc_score x) (sc_score z)"
          using xy above jsge_trans by auto
        then have "descending (x # y # takeWhile scored ys)"
          using d by (simp add: descending_Cons)
        then show ?thesis
          using False sx sy by simp
      qed
    qed
  qed
qed

lemma jsSort_descending: "descending (takeWhile scored (jsSort byScore items))"
proof (induction items)
  case Nil
  show ?case by (simp add: jsSort_def descending_def)
next
  case (Cons x xs)
  then show ?case
    using insertBy_descending [of "jsSort byScore xs" x] by (simp add: jsSort_def)
qed

lemma take_takeWhile:
  "\<forall>x\<in>set (take k xs). P x \<Longrightarrow> take k xs = take k (takeWhile P xs)"
proof (induction xs arbitrary: k)
  case Nil
  show ?case by simp
next
  case (Cons x xs)
  then show ?case
    by (cases k) auto
qed

lemma take_jsSort_descending:
  assumes "\<forall>x\<in>set (take k (jsSort byScore items)). scored x"
  shows "descending (take k (jsSort byScore items))"
proof -
  have "take k (jsSort byScore items) = take k (takeWhile scored (jsSort byScore items))"
    using assms by (rule take_takeWhile)
  moreover have "descending (take k (takeWhile scored (jsSort byScore items)))"
    using jsSort_descending [of items] unfolding descending_def by (rule sorted_wrt_take)
  ultimately show ?thesis by simp
qed

lemma set_insertBy: "set (insertBy comparefn x ys) = insert x (set ys)"
  by (induction ys) auto

lemma set_jsSort: "set (jsSort comparefn xs) = set xs"
  by (induction xs) (simp_all add: jsSort_def set_insertBy)

lemma vectorChunks_entries:
  "\<forall>x\<in>set acc. vectorEntry q x \<Longrightarrow> \<forall>x\<in>set (vectorChunks q docName chunks acc). vectorEntry q x"
proof (induction chunks arbitrary: acc)
  case Nil
  then show ?case by simp
next
  case (Cons chunk rest)
  show ?case
  proof (cases "chunk_embedding chunk")
    case None
    then show ?thesis using Cons by simp
  next
    case (Some embedding)
    let ?item = "\<lparr>sc_chunk = chunk, sc_score = cosineSimilarity q embedding, sc_docName = docName\<rparr>"
    have "vectorEntry q ?item"
      using Some by (simp add: vectorEntry_def)
    then have "\<forall>x\<in>set (acc @ [?item]). vectorEntry q x"
      using Cons.prems by simp
    from Cons.IH [OF this] show ?thesis
      using Some by simp
  qed
qed

lemma vectorDocuments_entries:
  "\<forall>x\<in>set acc. vectorEntry q x \<Longrightarrow> \<forall>x\<in>set (vectorDocuments q docs acc). vectorEntry q x"
proof (induction docs arbitrary: acc)
  case Nil
  then show ?case by simp
next
  case (Cons doc rest)
  have "\<forall>x\<in>set (vectorChunks q (doc_name doc) (doc_chunks doc) acc). vectorEntry q x"
    using Cons.prems by (rule vectorChunks_entries)
  from Cons.IH [OF this] show ?case by simp
qed

lemma keywordChunks_entries:
  "\<forall>x\<in>set acc. keywordEntry env terms x \<Longrightarrow>
   \<forall>x\<in>set (keywordChunks env terms docName chunks acc). keywordEntry env terms x"
proof (induction chunks arbitrary: acc)
  case Nil
  then show ?case by simp
next
  case (Cons chunk rest)
  define n where "n = keywordScore env terms (toLowerCase env (chunk_content chunk)) 0"
  show ?case
  proof (cases "0 < n")
    case False
    then show ?thesis using Cons by (simp add: n_def Let_def)
  next
    case True
    let ?item = "\<lparr>sc_chunk = chunk, sc_score = Fin (real n), sc_docName = docName\<rparr>"
    have "keywordEntry env terms ?item"
      using True by (simp add: keywordEntry_def n_def)
    then have "\<forall>x\<in>set (acc @ [?item]). keywordEntry env terms x"
      using Cons.prems by simp
    from Cons.IH [OF this] show ?thesis
      using True by (simp add: n_def Let_def)
  qed
qed

lemma keywordDocuments_entries:
  "\<forall>x\<in>set acc. keywordEntry env terms x \<Longrightarrow>
   \<forall>x\<in>set (keywordDocuments env terms docs acc). keywordEntry env terms x"
proof (induction docs arbitrary: acc)
  case Nil
  then show ?case by simp
next
  case (Cons doc rest)
  have "\<forall>x\<in>set (keywordChunks env terms (doc_name doc) (doc_chunks doc) acc). keywordEntry env terms x"
    using Cons.prems by (rule keywordChunks_entries)
  from Cons.IH [OF this] show ?case by simp
qed

lemma similarityOf_withSimilarity: "similarityOf (withSimilarity v item) = v"
  by (simp add: similarityOf_def withSimilarity_def)

lemma withSimilarity_fields:
  "chunk_embedding (withSimilarity v item) = chunk_embedding (sc_chunk item)"
  "chunk_content (withSimilarity v item) = chunk_content (sc_chunk item)"
  by (simp_all add: withSimilarity_def)

lemma set_take_jsSort: "x \<in> set (take k (jsSort comparefn xs)) \<Longrightarrow> x \<in> set xs"
  using set_jsSort [of comparefn xs] by (auto dest: in_set_takeD)

lemma searchDocuments_vector:
  assumes "hasEmbeddings (getAllDocuments s)"
    and "fst (searchDocuments env query topK s) = Inr found"
  shows "length found \<le> topK \<and>
    ((\<forall>c\<in>set found. similarityOf c \<noteq> NaN) \<longrightarrow>
       sorted_wrt (\<lambda>a b. jsge (similarityOf a) (similarityOf b)) found) \<and>
    (\<forall>c\<in>set found. \<exists>queryEmbedding embedding.
       generateEmbedding (embeddingsEndpoint env 0) query = Inr queryEmbedding \<and>
       chunk_embedding c = Some embedding \<and>
       similarityOf c = cosineSimilarity queryEmbedding embedding)"
proof (cases "generateEmbedding (embeddingsEndpoint env 0) query")
  case (Inl e)
  then have "found = []"
    using assms by (simp add: searchDocuments_def searchDocumentsBody_def)
  then show ?thesis by simp
next
  case (Inr q)
  define ranked where "ranked = take topK (jsSort byScore (vectorDocuments q (getAllDocuments s) []))"
  have found: "found = map (\<lambda>item. withSimilarity (sc_score item) item) ranked"
    using assms Inr by (simp add: searchDocuments_def searchDocumentsBody_def ranked_def Let_def)
  have len: "length found \<le> topK"
    by (simp add: found ranked_def)
  have entries: "\<forall>x\<in>set ranked. vectorEntry q x"
  proof
    fix x assume "x \<in> set ranked"
    then have "x \<in> set (vectorDocuments q (getAllDocuments s) [])"
      unfolding ranked_def by (rule set_take_jsSort)
    moreover have "\<forall>x\<in>set (vectorDocuments q (getAllDocuments s) []). vectorEntry q x"
      by (rule vectorDocuments_entries) simp
    ultimately show "vectorEntry q x" by blast
  qed
  have sorted: "sorted_wrt (\<lambda>a b. jsge (similarityOf a) (similarityOf b)) found"
    if "\<forall>c\<in>set found. similarityOf c \<noteq> NaN"
  proof -
    have "\<forall>x\<in>set ranked. scored x"
      using that by (simp add: found similarityOf_withSimilarity scored_def)
    then have "descending ranked"
      unfolding ranked_def by (rule take_jsSort_descending)
    then show ?thesis
      by (simp add: found sorted_wrt_map similarityOf_withSimilarity descending_def)
  qed
  have "\<forall>c\<in>set found. \<exists>queryEmbedding embedding.
       generateEmbedding (embeddingsEndpoint env 0) query = Inr queryEmbedding \<and>
       chunk_embedding c = Some embedding \<and>
       similarityOf c = cosineSimilarity queryEmbedding embedding"
    using entries Inr
    by (auto simp: found vectorEntry_def similarityOf_withSimilarity withSimilarity_fields)
  with len sorted show ?thesis by blast
qed

lemma searchDocuments_keyword:
  assumes "\<not> hasEmbeddings (getAllDocuments s)"
    and "fst (searchDocuments env query topK s) = Inr found"
  shows "length found \<le> topK \<and>
    sorted_wrt (\<lambda>a b. jsge (similarityOf a) (similarityOf b)) found \<and>
    (\<forall>c\<in>set found. \<exists>terms n.
       expandQueryTerms env query = Inr terms \<and>
       n = keywordScore env terms (toLowerCase env (chunk_content c)) 0 \<and> 0 < n \<and>
       similarityOf c = Fin (real n / 10))"
proof (cases "expandQueryTerms env query")
  case (Inl e)
  then have "found = []"
    using assms by (simp add: searchDocuments_def searchDocumentsBody_def)
  then show ?thesis by simp
next
  case (Inr terms)
  define ranked where
    "ranked = take topK (jsSort byScore (keywordDocuments env terms (getAllDocuments s) []))"
  have found: "found = map (\<lambda>item. withSimilarity (jsdiv (sc_score item) (Fin 10)) item) ranked"
    using assms Inr by (simp add: searchDocuments_def searchDocumentsBody_def ranked_def Let_def)
  have len: "length found \<le> topK"
    by (simp add: found ranked_def)
  have entries: "\<forall>x\<in>set ranked. keywordEntry env terms x"
  proof
    fix x assume "x \<in> set ranked"
    then have "x \<in> set (keywordDocuments env terms (getAllDocuments s) [])"
      unfolding ranked_def by (rule set_take_jsSort)
    moreover have "\<forall>x\<in>set (keywordDocuments env terms (getAllDocuments s) []). keywordEntry env terms x"
      by (rule keywordDocuments_entries) simp
    ultimately show "keywordEntry env terms x" by blast
  qed
  have "\<forall>x\<in>set ranked. scored x"
    using entries by (auto simp: keywordEntry_def scored_def)
  then have "descending ranked"
    unfolding ranked_def by (rule take_jsSort_descending)
  then have "sorted_wrt (\<lambda>a b. jsge (sc_score a) (sc_score b)) ranked"
    by (simp add: descending_def)
  then have "sorted_wrt (\<lambda>a b. jsge (jsdiv (sc_score a) (Fin 10)) (jsdiv (sc_score b) (Fin 10))) ranked"
  proof (rule sorted_wrt_mono_rel [rotated])
    fix a b assume "a \<in> set ranked" "b \<in> set ranked" "jsge (sc_score a) (sc_score b)"
    then show "jsge (jsdiv (sc_score a) (Fin 10)) (jsdiv (sc_score b) (Fin 10))"
      using entries by (auto simp: keywordEntry_def)
  qed
  then have sorted: "sorted_wrt (\<lambda>a b. jsge (similarityOf a) (similarityOf b)) found"
    by (simp add: found sorted_wrt_map similarityOf_withSimilarity)
  have "\<forall>c\<in>set found. \<exists>terms n.
       expandQueryTerms env query = Inr terms \<and>
       n = keywordScore env terms (toLowerCase env (chunk_content c)) 0 \<and> 0 < n \<and>
       similarityOf c = Fin (real n / 10)"
    using entries Inr
    by (auto simp: found keywordEntry_def similarityOf_withSimilarity withSimilarity_fields)
  with len sorted show ?thesis by blast
qed

lemma vectorChunks_chunk:
  "x \<in> set (vectorChunks q docName chunks acc) \<Longrightarrow> x \<in> set acc \<or> sc_chunk x \<in> set chunks"
proof (induction chunks arbitrary: acc)
  case Nil
  then show ?case by simp
next
  case (Cons chunk rest)
  show ?case
  proof (cases "chunk_embedding chunk")
    case None
    then show ?thesis using Cons by auto
  next
    case (Some embedding)
    let ?item = "\<lparr>sc_chunk = chunk, sc_score = cosineSimilarity q embedding, sc_docName = docName\<rparr>"
    have "x \<in> set (vectorChunks q docName rest (acc @ [?item]))"
      using Cons.prems Some by simp
    from Cons.IH [OF this] show ?thesis by auto
  qed
qed

lemma vectorDocuments_chunk:
  "x \<in> set (vectorDocuments q docs acc) \<Longrightarrow>
   x \<in> set acc \<or> (\<exists>doc\<in>set docs. sc_chunk x \<in> set (doc_chunks doc))"
proof (induction docs arbitrary: acc)
  case Nil
  then show ?case by simp
next
  case (Cons doc rest)
  have "x \<in> set (vectorDocuments q rest (vectorChunks q (doc_name doc) (doc_chunks doc) acc))"
    using Cons.prems by simp
  from Cons.IH [OF this] show ?case
    using vectorChunks_chunk [of x q "doc_name doc" "doc_chunks doc" acc] by auto
qed

lemma searchDocuments_vector_scored:
  assumes "hasEmbeddings (getAllDocuments s)"
    and "fst (searchDocuments env query topK s) = Inr found"
    and "\<forall>queryEmbedding doc c embedding.
           generateEmbedding (embeddingsEndpoint env 0) query = Inr queryEmbedding \<and>
           doc \<in> set (getAllDocuments s) \<and> c \<in> set (doc_chunks doc) \<and>
           chunk_embedding c = Some embedding \<longrightarrow>
           cosineSimilarity queryEmbedding embedding \<noteq> NaN"
  shows "\<forall>c\<in>set found. similarityOf c \<noteq> NaN"
proof (cases "generateEmbedding (embeddingsEndpoint env 0) query")
  case (Inl e)
  then have "found = []"
    using assms(1,2) by (simp add: searchDocuments_def searchDocumentsBody_def)
  then show ?thesis by simp
next
  case (Inr q)
  define ranked where "ranked = take topK (jsSort byScore (vectorDocuments q (getAllDocuments s) []))"
  have found: "found = map (\<lambda>item. withSimilarity (sc_score item) item) ranked"
    using assms(1,2) Inr by (simp add: searchDocuments_def searchDocumentsBody_def ranked_def Let_def)
  have "sc_score x \<noteq> NaN" if x: "x \<in> set ranked" for x
  proof -
    have m: "x \<in> set (vectorDocuments q (getAllDocuments s) [])"
      using x unfolding ranked_def by (rule set_take_jsSort)
    have "\<forall>x\<in>set (vectorDocuments q (getAllDocuments s) []). vectorEntry q x"
      by (rule vectorDocuments_entries) simp
    then obtain embedding where e: "chunk_embedding (sc_chunk x) = Some embedding"
      "sc_score x = cosineSimilarity q embedding"
      using m unfolding vectorEntry_def by blast
    obtain doc where d: "doc \<in> set (getAllDocuments s)" "sc_chunk x \<in> set (doc_chunks doc)"
      using vectorDocuments_chunk [OF m] by auto
    show ?thesis
      using assms(3) Inr d e by metis
  qed
  then show ?thesis
    by (simp add: found similarityOf_withSimilarity)
qed

text \<open>
  The ranking of \<open>searchDocuments\<close> where every score is a number: the list returned
  has at most \<open>topK\<close> chunks. When a stored chunk carries an embedding, every returned
  chunk carries one and its similarity is the cosine similarity of the query embedding and
  its own; otherwise every returned chunk has a positive keyword score over the expanded
  terms and its similarity is a tenth of that score. The list is in non-increasing
  similarity order when no stored embedding has the similarity \<open>NaN\<close> with the query
  embedding, and always for keyword scores; the comparison function is then consistent
  and the order does not depend on the sorting algorithm.
\<close>

theorem searchDocuments_ranking:
  assumes "fst (searchDocuments env query topK s) = Inr found"
  shows "length found \<le> topK \<and>
    ((\<forall>queryEmbedding doc c embedding.
        generateEmbedding (embeddingsEndpoint env 0) query = Inr queryEmbedding \<and>
        doc \<in> set (getAllDocuments s) \<and> c \<in> set (doc_chunks doc) \<and>
        chunk_embedding c = Some embedding \<longrightarrow>
        cosineSimilarity queryEmbedding embedding \<noteq> NaN) \<longrightarrow>
       sorted_wrt (\<lambda>a b. jsge (similarityOf a) (similarityOf b)) found) \<and>
    (hasEmbeddings (getAllDocuments s) \<longrightarrow>
       (\<forall>c\<in>set found. \<exists>queryEmbedding embedding.
          generateEmbedding (embeddingsEndpoint env 0) query = Inr queryEmbedding \<and>
          chunk_embedding c = Some embedding \<and>
          similarityOf c = cosineSimilarity queryEmbedding embedding)) \<and>
    (\<not> hasEmbeddings (getAllDocuments s) \<longrightarrow>
       sorted_wrt (\<lambda>a b. jsge (similarityOf a) (similarityOf b)) found \<and>
       (\<forall>c\<in>set found. \<exists>terms n.
          expandQueryTerms env query = Inr terms \<and>
          n = keywordScore env terms (toLowerCase env (chunk_content c)) 0 \<and> 0 < n \<and>
          similarityOf c = Fin (real n / 10)))"
proof (cases "hasEmbeddings (getAllDocuments s)")
  case True
  from searchDocuments_vector [OF True assms] searchDocuments_vector_scored [OF True assms] True
  show ?thesis by blast
next
  case False
  from searchDocuments_keyword [OF False assms] False show ?thesis by blast
qed

section \<open>Similarity ranker: a keyword search\<close>

lemma fruit_terms: "expandQueryTerms (sampleEnv offline offline) (lit ''pear'') = Inr [lit ''pear'']"
proof -
  have "filter (\<lambda>w. length w > 2)
      (splitRuns isWhiteSpace (toLowerCase (sampleEnv offline offline) (lit ''pear''))) = [lit ''pear'']"
    by (simp add: sampleEnv_def lit_def asciiLower_def splitRuns.simps isWhiteSpace_def)
  moreover have "synonyms (lit ''pear'') = Undefined"
    by (simp add: synonyms_def synonymsTable_def objectPrototypeNames_def lit_def)
  ultimately show ?thesis
    by (simp add: expandQueryTerms_def Let_def setAdd_def)
qed

lemma fruit_counts:
  "countMatches asciiUpper (lit ''pear'') (map asciiLower (lit ''apple'')) = 0"
  "countMatches asciiUpper (lit ''pear'') (map asciiLower (lit ''pear'')) = 1"
  "countMatches asciiUpper (lit ''pear'') (map asciiLower (lit ''Pear pear'')) = 2"
  by code_simp+

lemma fruit_scores:
  "countMatches (canonicalize (sampleEnv offline offline)) (lit ''pear'')
     (toLowerCase (sampleEnv offline offline) (lit ''apple'')) = 0"
  "countMatches (canonicalize (sampleEnv offline offline)) (lit ''pear'')
     (toLowerCase (sampleEnv offline offline) (lit ''pear'')) = 1"
  "countMatches (canonicalize (sampleEnv offline offline)) (lit ''pear'')
     (toLowerCase (sampleEnv offline offline) (lit ''Pear pear'')) = 2"
  by (simp_all add: sampleEnv_def fruit_counts)

lemma fruit_documents:
  "getAllDocuments fruitStore = [sampleDocument (lit ''apple. pear. Pear pear'')
      [sampleChunk (lit ''apple'') None,
       sampleChunk (lit ''pear'') None,
       sampleChunk (lit ''Pear pear'') None]]"
  by (simp add: fruitStore_def getAllDocuments_single)

lemma fruit_no_embeddings: "\<not> hasEmbeddings (getAllDocuments fruitStore)"
  by (simp add: fruit_documents hasEmbeddings_def sampleDocument_def sampleChunk_def)

lemma chunk_content_sampleChunk: "chunk_content (sampleChunk c e) = c"
  by (simp add: sampleChunk_def plainChunk_def)

lemma fruit_scored:
  "keywordDocuments (sampleEnv offline offline) [lit ''pear''] (getAllDocuments fruitStore) [] =
     [\<lparr>sc_chunk = sampleChunk (lit ''pear'') None, sc_score = Fin 1, sc_docName = lit ''a.txt''\<rparr>,
      \<lparr>sc_chunk = sampleChunk (lit ''Pear pear'') None, sc_score = Fin 2, sc_docName = lit ''a.txt''\<rparr>]"
  by (simp add: fruit_documents sampleDocument_def chunk_content_sampleChunk fruit_scores Let_def)

lemma fruit_search:
  "fst (searchDocuments (sampleEnv offline offline) (lit ''pear'') 5 fruitStore) =
     Inr [withSimilarity (Fin (2 / 10))
            \<lparr>sc_chunk = sampleChunk (lit ''Pear pear'') None, sc_score = Fin 2, sc_docName = lit ''a.txt''\<rparr>,
          withSimilarity (Fin (1 / 10))
            \<lparr>sc_chunk = sampleChunk (lit ''pear'') None, sc_score = Fin 1, sc_docName = lit ''a.txt''\<rparr>]"
  by (simp add: searchDocuments_def searchDocumentsBody_def fruit_no_embeddings fruit_terms
      fruit_scored jsSort_def byScore_def jssub_def Let_def)

theorem searchDocuments_ranking_witness:
  "fst (searchDocuments (sampleEnv offline offline) (lit ''pear'') 5 fruitStore) = Inr fruitFound \<and>
   \<not> hasEmbeddings (getAllDocuments fruitStore) \<and>
   map chunk_content fruitFound = [lit ''Pear pear'', lit ''pear''] \<and>
   map similarityOf fruitFound = [Fin (2 / 10), Fin (1 / 10)] \<and>
   length fruitFound \<le> 5 \<and>
   sorted_wrt (\<lambda>a b. jsge (similarityOf a) (similarityOf b)) fruitFound"
proof -
  have f: "fst (searchDocuments (sampleEnv offline offline) (lit ''pear'') 5 fruitStore) = Inr fruitFound"
    unfolding fruitFound_def by (rule fruit_search)
  have c: "map chunk_content fruitFound = [lit ''Pear pear'', lit ''pear'']"
    by (simp add: fruitFound_def withSimilarity_fields chunk_content_sampleChunk)
  have m: "map similarityOf fruitFound = [Fin (2 / 10), Fin (1 / 10)]"
    by (simp add: fruitFound_def similarityOf_withSimilarity)
  from searchDocuments_ranking [OF f] fruit_no_embeddings
  have "length fruitFound \<le> 5 \<and>
        sorted_wrt (\<lambda>a b. jsge (similarityOf a) (similarityOf b)) fruitFound"
    by blast
  with f fruit_no_embeddings c m show ?thesis
    by (intro conjI) simp_all
qed

section \<open>Context assembler: sample contexts\<close>

lemma two_documents: "getAllDocuments twoDocuments = [bigDocument, appendixDocument]"
  by (simp add: twoDocuments_def getAllDocuments_def sampleState_def jsSort_def jssub_def
      bigDocument_def appendixDocument_def smallDocument_def sampleDocument_def)

lemma two_no_embeddings: "\<not> hasEmbeddings (getAllDocuments twoDocuments)"
  by (simp add: two_documents hasEmbeddings_def bigDocument_def appendixDocument_def
      smallDocument_def sampleDocument_def sampleChunk_def)

lemma two_search:
  "searchDocuments (sampleEnv offline offline) (lit ''hi'') 3 twoDocuments = (Inr [], twoDocuments)"
  by (rule searchDocuments_hi [OF two_no_embeddings])

lemma two_space:
  "fits 175 [bigDocument, appendixDocument] 0"
  "\<not> fits 175 [bigDocument, appendixDocument] (Suc 0)"
  "spaceBefore 175 [bigDocument, appendixDocument] (Suc 0) < 1000"
  by (simp_all add: fits_def spaceBefore_def maxTotalLength_def bigDocument_def sampleDocument_def)

lemma fruit_search_pair:
  "searchDocuments (sampleEnv offline offline) (lit ''pear'') 5 fruitStore = (Inr fruitFound, fruitStore)"
  using fruit_search searchDocuments_returns [of "sampleEnv offline offline" "lit ''pear''" 5 fruitStore]
  by (auto simp: fruitFound_def)

lemma fruit_space:
  "fits (int (length ((relevantHeader @
      concat (map (\<lambda>(index, chunk). sectionOf index chunk) (enumerate 0 fruitFound))) @ fullHeader)))
     (getAllDocuments fruitStore) 0"
  unfolding fruit_documents by code_simp

lemma fruit_found: "fruitFound \<noteq> []" "length (getAllDocuments fruitStore) = Suc 0"
  by (simp_all add: fruitFound_def fruit_documents)

theorem buildRAGContext_layout_witness:
  "buildRAGContext (sampleEnv offline offline) (lit ''hi'') 3 (sampleState []) =
     (Inr (lit ''hi''), sampleState []) \<and>
   buildRAGContext (sampleEnv offline offline) (lit ''pear'') 5 fruitStore =
     (Inr (systemPrompt @ lit ''\<newline>\<newline>'' @
           (relevantHeader @
            concat (map (\<lambda>(index, chunk). sectionOf index chunk) (enumerate 0 fruitFound))) @
           fullHeader @ concat (map wholeFile (getAllDocuments fruitStore)) @
           lit ''\<newline>\<newline>'' @
           doubleBar @ lit ''\<newline>USER QUESTION: '' @ lit ''pear'' @ lit ''\<newline>'' @ doubleBar @
           closingInstruction), fruitStore) \<and>
   map chunk_content fruitFound = [lit ''Pear pear'', lit ''pear''] \<and>
   map doc_content (getAllDocuments fruitStore) = [lit ''apple. pear. Pear pear''] \<and>
   buildRAGContext (sampleEnv offline offline) (lit ''hi'') 3 twoDocuments =
     (Inr (systemPrompt @ lit ''\<newline>\<newline>'' @
           [] @ fullHeader @ (wholeFile bigDocument @ truncationNotice) @
           lit ''\<newline>\<newline>'' @
           doubleBar @ lit ''\<newline>USER QUESTION: '' @ lit ''hi'' @ lit ''\<newline>'' @ doubleBar @
           closingInstruction), twoDocuments)"
proof -
  have e: "documentsStore (sampleState []) = []"
    by (simp add: sampleState_def)
  have 1: "buildRAGContext (sampleEnv offline offline) (lit ''hi'') 3 (sampleState []) =
     (Inr (lit ''hi''), sampleState [])"
    using buildRAGContext_layout [of "sampleState []" "sampleEnv offline offline" "lit ''hi''" 3] e
    by blast
  have n: "documentsStore fruitStore \<noteq> []"
    by (simp add: fruitStore_def sampleState_def)
  obtain relevantChunks relevantText documentsText where
    a: "searchDocuments (sampleEnv offline offline) (lit ''pear'') 5 fruitStore =
          (Inr relevantChunks, fruitStore)" and
    b: "relevantText =
           (if relevantChunks = [] then []
            else relevantHeader @
                 concat (map (\<lambda>(index, chunk). sectionOf index chunk) (enumerate 0 relevantChunks)))" and
    c: "buildRAGContext (sampleEnv offline offline) (lit ''pear'') 5 fruitStore =
           (Inr (systemPrompt @ lit ''\<newline>\<newline>'' @
                 relevantText @ fullHeader @ documentsText @
                 lit ''\<newline>\<newline>'' @
                 doubleBar @ lit ''\<newline>USER QUESTION: '' @ lit ''pear'' @ lit ''\<newline>'' @ doubleBar @
                 closingInstruction), fruitStore)" and
    d: "\<forall>k\<le>length (getAllDocuments fruitStore).
            (\<forall>j<k. fits (int (length (relevantText @ fullHeader))) (getAllDocuments fruitStore) j) \<and>
            (k < length (getAllDocuments fruitStore) \<longrightarrow>
               \<not> fits (int (length (relevantText @ fullHeader))) (getAllDocuments fruitStore) k) \<longrightarrow>
            documentsText =
              concat (map wholeFile (take k (getAllDocuments fruitStore))) @
              (if k = length (getAllDocuments fruitStore) then []
               else if spaceBefore (int (length (relevantText @ fullHeader))) (getAllDocuments fruitStore) k < 1000
                 then truncationNotice
               else cutFile (spaceBefore (int (length (relevantText @ fullHeader))) (getAllDocuments fruitStore) k)
                      (getAllDocuments fruitStore ! k) @
                    (if Suc k < length (getAllDocuments fruitStore) then truncationNotice else []))"
    using buildRAGContext_layout [of fruitStore "sampleEnv offline offline" "lit ''pear''" 5] n
    by blast
  have rc: "relevantChunks = fruitFound"
    using a fruit_search_pair by simp
  have rt: "relevantText = relevantHeader @
      concat (map (\<lambda>(index, chunk). sectionOf index chunk) (enumerate 0 fruitFound))"
    using b fruit_found(1) by (simp add: rc)
  have "documentsText = concat (map wholeFile (take (Suc 0) (getAllDocuments fruitStore))) @ []"
    using d [rule_format, of "Suc 0"] fruit_space by (simp add: rt fruit_found(2))
  then have dt: "documentsText = concat (map wholeFile (getAllDocuments fruitStore))"
    by (simp add: fruit_found(2))
  have 2: "buildRAGContext (sampleEnv offline offline) (lit ''pear'') 5 fruitStore =
     (Inr (systemPrompt @ lit ''\<newline>\<newline>'' @
           (relevantHeader @
            concat (map (\<lambda>(index, chunk). sectionOf index chunk) (enumerate 0 fruitFound))) @
           fullHeader @ concat (map wholeFile (getAllDocuments fruitStore)) @
           lit ''\<newline>\<newline>'' @
           doubleBar @ lit ''\<newline>USER QUESTION: '' @ lit ''pear'' @ lit ''\<newline>'' @ doubleBar @
           closingInstruction), fruitStore)"
    using c unfolding rt dt .
  have 3: "map chunk_content fruitFound = [lit ''Pear pear'', lit ''pear'']"
    by (simp add: fruitFound_def withSimilarity_fields chunk_content_sampleChunk)
  have 4: "map doc_content (getAllDocuments fruitStore) = [lit ''apple. pear. Pear pear'']"
    by (simp add: fruit_documents sampleDocument_def)
  have n2: "documentsStore twoDocuments \<noteq> []"
    by (simp add: twoDocuments_def sampleState_def)
  obtain relevantChunks2 relevantText2 documentsText2 where
    a2: "searchDocuments (sampleEnv offline offline) (lit ''hi'') 3 twoDocuments =
          (Inr relevantChunks2, twoDocuments)" and
    b2: "relevantText2 =
           (if relevantChunks2 = [] then []
            else relevantHeader @
                 concat (map (\<lambda>(index, chunk). sectionOf index chunk) (enumerate 0 relevantChunks2)))" and
    c2: "buildRAGContext (sampleEnv offline offline) (lit ''hi'') 3 twoDocuments =
           (Inr (systemPrompt @ lit ''\<newline>\<newline>'' @
                 relevantText2 @ fullHeader @ documentsText2 @
                 lit ''\<newline>\<newline>'' @
                 doubleBar @ lit ''\<newline>USER QUESTION: '' @ lit ''hi'' @ lit ''\<newline>'' @ doubleBar @
                 closingInstruction), twoDocuments)" and
    d2: "\<forall>k\<le>length (getAllDocuments twoDocuments).
            (\<forall>j<k. fits (int (length (relevantText2 @ fullHeader))) (getAllDocuments twoDocuments) j) \<and>
            (k < length (getAllDocuments twoDocuments) \<longrightarrow>
               \<not> fits (int (length (relevantText2 @ fullHeader))) (getAllDocuments twoDocuments) k) \<longrightarrow>
            documentsText2 =
              concat (map wholeFile (take k (getAllDocuments twoDocuments))) @
              (if k = length (getAllDocuments twoDocuments) then []
               else if spaceBefore (int (length (relevantText2 @ fullHeader))) (getAllDocuments twoDocuments) k < 1000
                 then truncationNotice
               else cutFile (spaceBefore (int (length (relevantText2 @ fullHeader))) (getAllDocuments twoDocuments) k)
                      (getAllDocuments twoDocuments ! k) @
                    (if Suc k < length (getAllDocuments twoDocuments) then truncationNotice else []))"
    using buildRAGContext_layout [of twoDocuments "sampleEnv offline offline" "lit ''hi''" 3] n2
    by blast
  have rc2: "relevantChunks2 = []"
    using a2 two_search by simp
  have rt2: "relevantText2 = []"
    using b2 by (simp add: rc2)
  have dt2: "documentsText2 = wholeFile bigDocument @ truncationNotice"
    using d2 [rule_format, of "Suc 0"] two_space
    by (simp add: rt2 two_documents length_fullHeader)
  have 5: "buildRAGContext (sampleEnv offline offline) (lit ''hi'') 3 twoDocuments =
     (Inr (systemPrompt @ lit ''\<newline>\<newline>'' @
           [] @ fullHeader @ (wholeFile bigDocument @ truncationNotice) @
           lit ''\<newline>\<newline>'' @
           doubleBar @ lit ''\<newline>USER QUESTION: '' @ lit ''hi'' @ lit ''\<newline>'' @ doubleBar @
           closingInstruction), twoDocuments)"
    using c2 unfolding rt2 dt2 .
  from 1 2 3 4 5 show ?thesis
    by (intro conjI)
qed

end
